theory Spec2Isabelle
  imports Complex_Main "HOL-Library.Word"
begin

unbundle bit_operations_syntax

section \<open>JavaScript values used by src/index.js\<close>

text \<open>
  A JavaScript string is a sequence of 16-bit code units; a Uint8Array (and a Buffer) is a
  sequence of bytes. Numbers that the code only ever uses as integers are modelled as
  \<open>int\<close>; the one place where a Number becomes fractional (\<open>checksum /= 32\<close>) uses
  \<open>rat\<close>: every value that occurs there is an integer below \<open>2^40\<close> divided by a power
  of two, which a double holds exactly.
\<close>

type_synonym code_unit = "16 word"
type_synonym js_string = "code_unit list"
type_synonym u8 = "8 word"

definition lit :: "string \<Rightarrow> js_string" where
  "lit s = map of_char s"

datatype js_value =
    JUndefined
  | JNull
  | JBoolean bool
  | JNumber rat
  | JString js_string
  | JObject

text \<open>Every \<open>throw new Error(...)\<close> of the modelled functions, one constructor per message.\<close>

datatype error =
    MustBeString                 \<comment> \<open>'Extended key must be a string'\<close>
  | UnsupportedFormat            \<comment> \<open>'Unsupported extended key format'\<close>
  | InvalidKPUBLength nat        \<comment> \<open>'Invalid KPUB length: n, expected 78'\<close>
  | NotKaspiumKPUB "u8 list"     \<comment> \<open>'Not a valid Kaspium KPUB. Version bytes: ...'\<close>
  | InvalidPublicKeyLength nat   \<comment> \<open>'Invalid public key length: n, expected 33'\<close>
  | NoPublicKey                  \<comment> \<open>'Converted XPUB has no public key'\<close>
  | ConvertedInvalid error       \<comment> \<open>'Converted XPUB is invalid: ' + message\<close>
  | FailedToConvert error        \<comment> \<open>'Failed to convert Kaspium KPUB to standard format: ' + message\<close>
  | ConvertBitsFailed            \<comment> \<open>'convertBits failed'\<close>
  | RangeError                   \<comment> \<open>TypedArray.prototype.set past the end of the target\<close>
  | LibraryError string          \<comment> \<open>an exception raised inside an imported package\<close>

definition try_bind :: "error + 'a \<Rightarrow> ('a \<Rightarrow> error + 'b) \<Rightarrow> error + 'b" where
  "try_bind m f = (case m of Inl e \<Rightarrow> Inl e | Inr x \<Rightarrow> f x)"

subsection \<open>32-bit operators on Numbers\<close>

text \<open>
  The bitwise operators convert their operands with ToInt32 (ToUint32 for \<open>>>>\<close>), a shift
  count with ToUint32 and \<open>& 31\<close>, and give a signed 32-bit result (unsigned for \<open>>>>\<close>).
\<close>

definition ToInt32 :: "int \<Rightarrow> int" where
  "ToInt32 x = signed_take_bit 31 x"

definition ToUint32 :: "int \<Rightarrow> int" where
  "ToUint32 x = take_bit 32 x"

definition shiftCount :: "int \<Rightarrow> nat" where
  "shiftCount n = nat (take_bit 5 (ToUint32 n))"

definition js_and :: "int \<Rightarrow> int \<Rightarrow> int" where
  "js_and a b = ToInt32 (ToInt32 a AND ToInt32 b)"

definition js_or :: "int \<Rightarrow> int \<Rightarrow> int" where
  "js_or a b = ToInt32 (ToInt32 a OR ToInt32 b)"

definition js_xor :: "int \<Rightarrow> int \<Rightarrow> int" where
  "js_xor a b = ToInt32 (ToInt32 a XOR ToInt32 b)"

definition js_shl :: "int \<Rightarrow> int \<Rightarrow> int" where
  "js_shl a n = ToInt32 (push_bit (shiftCount n) (ToInt32 a))"

definition js_shr :: "int \<Rightarrow> int \<Rightarrow> int" where
  "js_shr a n = drop_bit (shiftCount n) (ToInt32 a)"

definition js_ushr :: "int \<Rightarrow> int \<Rightarrow> int" where
  "js_ushr a n = drop_bit (shiftCount n) (ToUint32 a)"

text \<open>ToInt32 of a Number that may be fractional: truncate towards zero first.\<close>

definition truncate_num :: "rat \<Rightarrow> int" where
  "truncate_num x = (if x < 0 then \<lceil>x\<rceil> else \<lfloor>x\<rfloor>)"

definition js_and_num :: "rat \<Rightarrow> int \<Rightarrow> int" where
  "js_and_num x b = js_and (truncate_num x) b"

subsection \<open>Typed arrays\<close>

text \<open>
  \<open>new Uint8Array(n)\<close> is \<open>n\<close> zero bytes; \<open>new Uint8Array(array)\<close> and \<open>set\<close> store each
  number modulo 256; \<open>target.set(source, offset)\<close> raises a RangeError when the source does
  not fit; \<open>slice(a, b)\<close> with indices inside the array copies the bytes from \<open>a\<close> up to \<open>b\<close>.
\<close>

definition Uint8Array_new :: "nat \<Rightarrow> u8 list" where
  "Uint8Array_new n = replicate n 0"

definition Uint8Array_of :: "int list \<Rightarrow> u8 list" where
  "Uint8Array_of xs = map word_of_int xs"

definition numbers :: "u8 list \<Rightarrow> int list" where
  "numbers bs = map uint bs"

definition Uint8Array_set :: "u8 list \<Rightarrow> u8 list \<Rightarrow> nat \<Rightarrow> error + u8 list" where
  "Uint8Array_set target source offset =
     (if offset + length source > length target then Inl RangeError
      else Inr (take offset target @ source @ drop (offset + length source) target))"

definition Uint8Array_slice :: "'a list \<Rightarrow> nat \<Rightarrow> nat \<Rightarrow> 'a list" where
  "Uint8Array_slice xs a b = take (b - a) (drop a xs)"

definition startsWith :: "js_string \<Rightarrow> js_string \<Rightarrow> bool" where
  "startsWith s p = (take (length p) s = p)"

section \<open>Format detection: detectKPUBFormat\<close>

definition detectKPUBFormat :: "js_value \<Rightarrow> error + js_string" where
  "detectKPUBFormat extendedKey =
     (case extendedKey of
        JString s \<Rightarrow>
          if startsWith s (lit ''kpub'') then Inr (lit ''kaspium'')
          else if startsWith s (lit ''xpub'') then Inr (lit ''standard'')
          else if startsWith s (lit ''tpub'') then Inr (lit ''testnet'')
          else Inl UnsupportedFormat
      | _ \<Rightarrow> Inl MustBeString)"

section \<open>Address encoding\<close>

subsection \<open>prefixToArray and checksumToArray\<close>

definition prefixToArray :: "js_string \<Rightarrow> int list" where
  "prefixToArray prefix = map (\<lambda>c. js_and (uint c) 31) prefix"

text \<open>The loop of checksumToArray: \<open>i\<close> iterations left, pushing onto \<open>result\<close>.\<close>

fun checksumToArray_loop :: "nat \<Rightarrow> rat \<Rightarrow> int list \<Rightarrow> int list" where
  "checksumToArray_loop 0 checksum result = result"
| "checksumToArray_loop (Suc i) checksum result =
     checksumToArray_loop i (checksum / 32) (result @ [js_and_num checksum 31])"

definition checksumToArray :: "rat \<Rightarrow> int list" where
  "checksumToArray checksum = rev (checksumToArray_loop 8 checksum [])"

subsection \<open>polymod\<close>

definition GENERATOR1 :: "int list" where
  "GENERATOR1 = [0x98, 0x79, 0xf3, 0xae, 0x1e]"

definition GENERATOR2 :: "int list" where
  "GENERATOR2 = [0xf2bc8e61, 0xb76d99e2, 0x3e5fb3c4, 0x2eabe2a8, 0x4f43e470]"

text \<open>The inner loop over the generator terms, for the indices in the list given.\<close>

fun polymod_generators :: "int \<Rightarrow> nat list \<Rightarrow> int \<times> int \<Rightarrow> int \<times> int" where
  "polymod_generators C [] (c0, c1) = (c0, c1)"
| "polymod_generators C (i # is) (c0, c1) =
     (if js_and C (js_shl 1 (int i)) \<noteq> 0
      then polymod_generators C is (js_xor c0 (GENERATOR1 ! i), js_xor c1 (GENERATOR2 ! i))
      else polymod_generators C is (c0, c1))"

definition polymod_step :: "int \<Rightarrow> int \<times> int \<Rightarrow> int \<times> int" where
  "polymod_step d cs =
     (case cs of (c0, c1) \<Rightarrow>
        let C = js_ushr c0 3;
            c0 = js_and c0 0x07;
            c0 = js_shl c0 5;
            c0 = js_or c0 (js_ushr c1 27);
            c1 = js_and c1 0x07ffffff;
            c1 = js_shl c1 5;
            c1 = js_xor c1 d
        in polymod_generators C [0 ..< length GENERATOR1] (c0, c1))"

fun polymod_loop :: "int list \<Rightarrow> int \<times> int \<Rightarrow> int \<times> int" where
  "polymod_loop [] cs = cs"
| "polymod_loop (d # data) cs = polymod_loop data (polymod_step d cs)"

definition polymod :: "int list \<Rightarrow> int" where
  "polymod data =
     (case polymod_loop data (0, 1) of (c0, c1) \<Rightarrow>
        let c1 = js_xor c1 1;
            c1 = (if c1 < 0 then js_xor c1 (js_shl 1 31) + js_shl 1 30 * 2 else c1)
        in c0 * js_shl 1 30 * 4 + c1)"

subsection \<open>convertBits\<close>

text \<open>
  The inner \<open>while (bits >= toBits)\<close> does not end when \<open>toBits \<le> 0\<close>; \<open>None\<close> is
  that case. The result of convertBits is then \<open>None\<close> when it does not return,
  \<open>Some None\<close> when it returns \<open>null\<close>, and \<open>Some (Some a)\<close> for the array \<open>a\<close>.
\<close>

partial_function (option) convertBits_while ::
  "int \<Rightarrow> int \<Rightarrow> int \<Rightarrow> int \<Rightarrow> int list \<Rightarrow> (int \<times> int list) option" where
  "convertBits_while toBits maxv acc bits ret =
     (if bits \<ge> toBits
      then convertBits_while toBits maxv acc (bits - toBits)
             (ret @ [js_and (js_shr acc (bits - toBits)) maxv])
      else Some (bits, ret))"

declare convertBits_while.simps [code]

fun convertBits_for ::
  "int \<Rightarrow> int \<Rightarrow> int \<Rightarrow> int \<Rightarrow> int list \<Rightarrow> int \<times> int \<times> int list
     \<Rightarrow> (int \<times> int \<times> int list) option option" where
  "convertBits_for fromBits toBits maxv maxAcc [] st = Some (Some st)"
| "convertBits_for fromBits toBits maxv maxAcc (v # data) (acc, bits, ret) =
     (if v < 0 \<or> js_shr v fromBits \<noteq> 0 then Some None
      else
        let acc = js_and (js_or (js_shl acc fromBits) v) maxAcc;
            bits = bits + fromBits
        in case convertBits_while toBits maxv acc bits ret of
             None \<Rightarrow> None
           | Some (bits, ret) \<Rightarrow> convertBits_for fromBits toBits maxv maxAcc data (acc, bits, ret))"

definition convertBits :: "int list \<Rightarrow> int \<Rightarrow> int \<Rightarrow> bool \<Rightarrow> u8 list option option" where
  "convertBits data fromBits toBits pad =
     (let maxv = js_shl 1 toBits - 1;
          maxAcc = js_shl 1 (fromBits + toBits - 1) - 1
      in case convertBits_for fromBits toBits maxv maxAcc data (0, 0, []) of
           None \<Rightarrow> None
         | Some None \<Rightarrow> Some None
         | Some (Some (acc, bits, ret)) \<Rightarrow>
             if pad then
               Some (Some (Uint8Array_of
                 (if bits > 0 then ret @ [js_and (js_shl acc (toBits - bits)) maxv] else ret)))
             else if bits \<ge> fromBits \<or> js_and (js_shl acc (toBits - bits)) maxv \<noteq> 0
               then Some None
             else Some (Some (Uint8Array_of ret)))"

subsection \<open>base32Encode\<close>

definition CHARSET :: "string" where
  "CHARSET = ''qpzry9x8gf2tvdw0s3jn54khce6mua7l''"

text \<open>\<open>CHARSET[d]\<close> past the end is \<open>undefined\<close>, which \<open>+=\<close> appends as the text 'undefined'.\<close>

definition base32Encode :: "u8 list \<Rightarrow> js_string" where
  "base32Encode data =
     concat (map (\<lambda>d. if unat d < length CHARSET then [of_char (CHARSET ! unat d)]
                       else lit ''undefined'') data)"

subsection \<open>Hexadecimal text of a Buffer\<close>

text \<open>The digits are '0'..'9' (code units 48..57) and 'a'..'f' (97..102).\<close>

definition hexDigit :: "nat \<Rightarrow> code_unit" where
  "hexDigit n = of_nat (if n < 10 then 48 + n else 87 + n)"

definition Buffer_toString_hex :: "u8 list \<Rightarrow> js_string" where
  "Buffer_toString_hex bs =
     concat (map (\<lambda>b. [hexDigit (unat b div 16), hexDigit (unat b mod 16)]) bs)"

definition hexValue :: "code_unit \<Rightarrow> nat option" where
  "hexValue c =
     (let n = unat c in
      if 48 \<le> n \<and> n \<le> 57 then Some (n - 48)
      else if 97 \<le> n \<and> n \<le> 102 then Some (n - 87)
      else if 65 \<le> n \<and> n \<le> 70 then Some (n - 55)
      else None)"

text \<open>
  \<open>Buffer.from(text, 'hex')\<close> decodes pairs of digits and stops at the first pair that
  is not hexadecimal; the only text it is given here comes from \<open>toString('hex')\<close>.
\<close>

fun Buffer_from_hex :: "js_string \<Rightarrow> u8 list" where
  "Buffer_from_hex (a # b # rest) =
     (case (hexValue a, hexValue b) of
        (Some h, Some l) \<Rightarrow> of_nat (h * 16 + l) # Buffer_from_hex rest
      | _ \<Rightarrow> [])"
| "Buffer_from_hex _ = []"

subsection \<open>kaspaEncodePubKeyAddress\<close>

definition kaspaEncodePubKeyAddress :: "u8 list \<Rightarrow> js_string \<Rightarrow> (error + js_string) option" where
  "kaspaEncodePubKeyAddress pubKey prefix =
     (let pubKeyHex = Buffer_toString_hex pubKey;
          cleanPubKey = (if startsWith pubKeyHex (lit ''02'') \<or> startsWith pubKeyHex (lit ''03'')
                         then drop 2 pubKeyHex else pubKeyHex);
          eight0 = [0, 0, 0, 0, 0, 0, 0, 0];
          prefixData = prefixToArray prefix @ [0];
          versionByte = 0;
          pubKeyArray = numbers (Buffer_from_hex cleanPubKey)
      in case convertBits (numbers (Uint8Array_of ([versionByte] @ pubKeyArray))) 8 5 True of
           None \<Rightarrow> None
         | Some None \<Rightarrow> Some (Inl ConvertBitsFailed)
         | Some (Some payloadData) \<Rightarrow> Some (
             try_bind (Uint8Array_set
                 (Uint8Array_new (length prefixData + length payloadData + length eight0))
                 (Uint8Array_of prefixData) 0) (\<lambda>checksumData.
             try_bind (Uint8Array_set checksumData payloadData (length prefixData)) (\<lambda>checksumData.
             try_bind (Uint8Array_set checksumData (Uint8Array_of eight0)
                 (length prefixData + length payloadData)) (\<lambda>checksumData.
             let polymodData = checksumToArray (of_int (polymod (numbers checksumData))) in
             try_bind (Uint8Array_set
                 (Uint8Array_new (length payloadData + length polymodData)) payloadData 0) (\<lambda>payload.
             try_bind (Uint8Array_set payload (Uint8Array_of polymodData) (length payloadData)) (\<lambda>payload.
             Inr (lit ''kaspa:'' @ base32Encode payload))))))))"

section \<open>Extended keys: convertKaspiumKPUBToStandard\<close>

text \<open>
  Base58Check (\<open>@scure/base\<close>) and the BIP32 parser (\<open>@scure/bip32\<close>) are imported
  packages; the conversion takes them as parameters. \<open>HDKey_fromExtendedKey\<close> gives the
  \<open>publicKey\<close> property of the parsed key (\<open>None\<close> when it is null) or the exception raised.
\<close>

record externals =
  base58checkDecode :: "js_string \<Rightarrow> error + u8 list"
  base58checkEncode :: "u8 list \<Rightarrow> js_string"
  HDKey_fromExtendedKey :: "js_string \<Rightarrow> error + u8 list option"

definition KASPA_MAINNET_PUBLIC_BYTES :: "int list" where
  "KASPA_MAINNET_PUBLIC_BYTES = [0x03, 0x8f, 0x33, 0x2e]"

definition BITCOIN_MAINNET_PUBLIC_BYTES :: "int list" where
  "BITCOIN_MAINNET_PUBLIC_BYTES = [0x04, 0x88, 0xb2, 0x1e]"

record components =
  versionBytes :: "u8 list"
  depth :: u8
  fingerprint :: "u8 list"
  childNumber :: "u8 list"
  chainCode :: "u8 list"
  publicKey :: "u8 list"

text \<open>The slicing of the decoded bytes; it runs after the length check, on 78 bytes.\<close>

definition extractComponents :: "u8 list \<Rightarrow> components" where
  "extractComponents decoded =
     \<lparr> versionBytes = Uint8Array_slice decoded 0 4,
       depth = decoded ! 4,
       fingerprint = Uint8Array_slice decoded 5 9,
       childNumber = Uint8Array_slice decoded 9 13,
       chainCode = Uint8Array_slice decoded 13 45,
       publicKey = Uint8Array_slice decoded 45 78 \<rparr>"

text \<open>\<open>bytes.every((byte, i) => byte === expected[i])\<close>; \<open>expected[i]\<close> past the end is undefined.\<close>

definition every_equal :: "u8 list \<Rightarrow> int list \<Rightarrow> bool" where
  "every_equal bytes expected =
     list_all (\<lambda>i. i < length expected \<and> uint (bytes ! i) = expected ! i) [0 ..< length bytes]"

definition buildStandardExtendedKey :: "components \<Rightarrow> error + u8 list" where
  "buildStandardExtendedKey c =
     (let standardVersion = BITCOIN_MAINNET_PUBLIC_BYTES in
      try_bind (Uint8Array_set (Uint8Array_new 78) (Uint8Array_of standardVersion) 0) (\<lambda>k.
      try_bind (Uint8Array_set k (Uint8Array_of [uint (depth c)]) 4) (\<lambda>k.
      try_bind (Uint8Array_set k (fingerprint c) 5) (\<lambda>k.
      try_bind (Uint8Array_set k (childNumber c) 9) (\<lambda>k.
      try_bind (Uint8Array_set k (chainCode c) 13) (\<lambda>k.
      Uint8Array_set k (publicKey c) 45))))))"

definition validateConverted :: "externals \<Rightarrow> js_string \<Rightarrow> error + unit" where
  "validateConverted ext convertedXpub =
     (case HDKey_fromExtendedKey ext convertedXpub of
        Inl e \<Rightarrow> Inl (ConvertedInvalid e)
      | Inr None \<Rightarrow> Inl (ConvertedInvalid NoPublicKey)
      | Inr (Some k) \<Rightarrow> Inr ())"

definition convertKaspiumKPUBToStandard :: "externals \<Rightarrow> js_string \<Rightarrow> error + js_string" where
  "convertKaspiumKPUBToStandard ext kpub =
     (case
        try_bind (base58checkDecode ext kpub) (\<lambda>decoded.
          if length decoded \<noteq> 78 then Inl (InvalidKPUBLength (length decoded))
          else
            let c = extractComponents decoded;
                expectedVersion = KASPA_MAINNET_PUBLIC_BYTES
            in if \<not> every_equal (versionBytes c) expectedVersion
                 then Inl (NotKaspiumKPUB (versionBytes c))
               else if length (publicKey c) \<noteq> 33
                 then Inl (InvalidPublicKeyLength (length (publicKey c)))
               else
                 try_bind (buildStandardExtendedKey c) (\<lambda>standardExtendedKey.
                   let convertedXpub = base58checkEncode ext standardExtendedKey in
                   try_bind (validateConverted ext convertedXpub) (\<lambda>u. Inr convertedXpub)))
      of Inl e \<Rightarrow> Inl (FailedToConvert e)
       | Inr convertedXpub \<Rightarrow> Inr convertedXpub)"

section \<open>Auxiliary notions for the proofs\<close>

text \<open>The number that a list of \<open>w\<close>-bit digits, most significant first, appends to \<open>a\<close>.\<close>

fun be_value :: "nat \<Rightarrow> int \<Rightarrow> int list \<Rightarrow> int" where
  "be_value w a [] = a"
| "be_value w a (x # xs) = be_value w (a * 2 ^ w + x) xs"

text \<open>
  The checksum symbols of an address: checksumToArray of polymod over the prefix symbols,
  a zero, the payload symbols and eight zeros.
\<close>

definition address_checksum :: "js_string \<Rightarrow> u8 list \<Rightarrow> u8 list" where
  "address_checksum prefix payloadData =
     Uint8Array_of (checksumToArray (of_int (polymod (numbers
       (Uint8Array_of (prefixToArray prefix @ [0]) @ payloadData
          @ Uint8Array_of [0, 0, 0, 0, 0, 0, 0, 0])))))"

text \<open>
  A stand-in for the imported packages, to instantiate the theorems about
  convertKaspiumKPUBToStandard at concrete inputs: the text of a key is its bytes, and
  every key parses.
\<close>

definition plain_text_externals :: externals where
  "plain_text_externals =
     \<lparr> base58checkDecode = (\<lambda>s. Inr (map ucast s)),
       base58checkEncode = map ucast,
       HDKey_fromExtendedKey = (\<lambda>s. Inr (Some (map ucast (drop 45 s)))) \<rparr>"

section \<open>The 32-bit operators on small non-negative numbers\<close>

lemma ToInt32_id: "- (2 ^ 31) \<le> x \<Longrightarrow> x < 2 ^ 31 \<Longrightarrow> ToInt32 x = x"
  unfolding ToInt32_def by (rule signed_take_bit_int_eq_self) simp_all

lemma ToInt32_nonneg: "0 \<le> x \<Longrightarrow> x < 2 ^ 31 \<Longrightarrow> ToInt32 x = x"
  by (rule ToInt32_id) simp_all

lemma shiftCount_small: "k < 32 \<Longrightarrow> shiftCount (int k) = k"
  unfolding shiftCount_def ToUint32_def by (simp add: take_bit_int_eq_self take_bit_nat_eq_self nat_take_bit_eq)

lemma js_shl_mult:
  assumes "0 \<le> a" "a * 2 ^ k < 2 ^ 31" "k < 32"
  shows "js_shl a (int k) = a * 2 ^ k"
proof -
  have "a * 1 \<le> a * 2 ^ k" using assms(1) by (intro mult_left_mono) simp_all
  then have a: "a < 2 ^ 31" using assms(2) by simp
  have nn: "0 \<le> a * 2 ^ k" using assms(1) by simp
  show ?thesis
    unfolding js_shl_def using assms a nn
    by (simp add: shiftCount_small ToInt32_nonneg push_bit_eq_mult)
qed

lemma js_shr_div:
  assumes "0 \<le> a" "a < 2 ^ 31" "k < 32"
  shows "js_shr a (int k) = a div 2 ^ k"
  unfolding js_shr_def using assms
  by (simp add: shiftCount_small ToInt32_nonneg drop_bit_eq_div)

lemma js_and_mask:
  assumes "0 \<le> a" "a < 2 ^ 31" "k < 32"
  shows "js_and a (2 ^ k - 1) = a mod 2 ^ k"
proof -
  have "(2::int) ^ k \<le> 2 ^ 31" using assms(3) by (intro power_increasing) simp_all
  then have m: "ToInt32 (2 ^ k - 1) = 2 ^ k - 1" by (intro ToInt32_nonneg) simp_all
  have e: "a AND (2 ^ k - 1) = a mod 2 ^ k"
    by (simp add: take_bit_eq_mask mask_int_def flip: take_bit_eq_mod)
  have "0 \<le> a mod 2 ^ k" by simp
  moreover have "a mod 2 ^ k \<le> a" using assms(1) by (simp add: zmod_le_nonneg_dividend)
  ultimately have "ToInt32 (a mod 2 ^ k) = a mod 2 ^ k"
    using assms(2) by (intro ToInt32_nonneg) simp_all
  then show ?thesis
    unfolding js_and_def using assms by (simp add: ToInt32_nonneg m e)
qed

lemma js_or_add:
  assumes "0 \<le> a" "0 \<le> v" "v < 2 ^ k" "a * 2 ^ k + v < 2 ^ 31"
  shows "js_or (a * 2 ^ k) v = a * 2 ^ k + v"
proof -
  define P where "P = a * 2 ^ k"
  have nn: "0 \<le> P" using assms(1) by (simp add: P_def)
  have lt: "P + v < 2 ^ 31" using assms(4) by (simp add: P_def)
  have tv: "take_bit k v = v" using assms(2,3) by (simp add: take_bit_int_eq_self)
  have "P OR v = concat_bit k v a"
    by (simp add: P_def concat_bit_def tv push_bit_eq_mult or.commute)
  also have "\<dots> = P + v"
    by (simp add: P_def concat_bit_eq tv push_bit_eq_mult)
  finally have e: "P OR v = P + v" .
  have "ToInt32 P = P" using nn lt assms(2) by (intro ToInt32_nonneg) linarith+
  moreover have "ToInt32 v = v" using nn lt assms(2) by (intro ToInt32_nonneg) linarith+
  moreover have "ToInt32 (P + v) = P + v" using nn lt assms(2) by (intro ToInt32_nonneg) linarith+
  ultimately show ?thesis unfolding js_or_def P_def [symmetric] by (simp add: e)
qed

lemma split_mod_exp:
  fixes acc :: int
  assumes "t \<le> b"
  shows "(acc div 2 ^ (b - t) mod 2 ^ t) * 2 ^ (b - t) + acc mod 2 ^ (b - t) = acc mod 2 ^ b"
proof -
  have "acc mod 2 ^ b = acc mod (2 ^ (b - t) * 2 ^ t)"
    using assms by (simp flip: power_add)
  also have "\<dots> = 2 ^ (b - t) * (acc div 2 ^ (b - t) mod 2 ^ t) + acc mod 2 ^ (b - t)"
    by (rule zmod_zmult2_eq) simp
  finally show ?thesis by (simp add: mult.commute)
qed

lemma convertBits_while_spec:
  assumes "0 < t" "t < 32" "0 \<le> acc" "acc < 2 ^ 31" "b < 32"
  shows "\<exists>ds. convertBits_while (int t) (2 ^ t - 1) acc (int b) ret = Some (int (b mod t), ret @ ds)
            \<and> length ds = b div t
            \<and> (\<forall>d\<in>set ds. 0 \<le> d \<and> d < 2 ^ t)
            \<and> (\<forall>a. be_value t a ds * 2 ^ (b mod t) + acc mod 2 ^ (b mod t) = a * 2 ^ b + acc mod 2 ^ b)"
  using assms(5)
proof (induction b arbitrary: ret rule: less_induct)
  case (less b)
  show ?case
  proof (cases "b < t")
    case True
    then have "convertBits_while (int t) (2 ^ t - 1) acc (int b) ret = Some (int (b mod t), ret @ [])"
      by (subst convertBits_while.simps) simp
    with True show ?thesis by (intro exI [of _ "[]"]) simp
  next
    case False
    define d where "d = acc div 2 ^ (b - t) mod 2 ^ t"
    have bt: "b - t < b" "b - t < 32" using False assms(1) less.prems by simp_all
    have d: "js_and (js_shr acc (int b - int t)) (2 ^ t - 1) = d"
    proof -
      have i: "int b - int t = int (b - t)" using False by simp
      have "acc div 2 ^ (b - t) \<le> acc div 1" using assms(3) by (intro zdiv_mono2) simp_all
      then have "acc div 2 ^ (b - t) < 2 ^ 31" using assms(4) by simp
      moreover have "0 \<le> acc div 2 ^ (b - t)" using assms(3) by (simp add: pos_imp_zdiv_nonneg_iff)
      ultimately show ?thesis
        unfolding i d_def using assms bt by (simp add: js_shr_div js_and_mask)
    qed
    from less.IH [OF bt(1) bt(2), of "ret @ [d]"] obtain ds where ds:
      "convertBits_while (int t) (2 ^ t - 1) acc (int (b - t)) (ret @ [d]) = Some (int ((b - t) mod t), (ret @ [d]) @ ds)"
      "length ds = (b - t) div t"
      "\<forall>d\<in>set ds. 0 \<le> d \<and> d < 2 ^ t"
      "\<forall>a. be_value t a ds * 2 ^ ((b - t) mod t) + acc mod 2 ^ ((b - t) mod t) = a * 2 ^ (b - t) + acc mod 2 ^ (b - t)"
      by blast
    have m: "(b - t) mod t = b mod t" using False by (simp add: le_mod_geq)
    have q: "b div t = Suc ((b - t) div t)" using False assms(1) by (simp add: le_div_geq)
    have "convertBits_while (int t) (2 ^ t - 1) acc (int b) ret = Some (int (b mod t), ret @ (d # ds))"
      using False ds(1) d by (subst convertBits_while.simps) (simp add: m)
    moreover have "length (d # ds) = b div t" using ds(2) q by simp
    moreover have "\<forall>x\<in>set (d # ds). 0 \<le> x \<and> x < 2 ^ t" using ds(3) by (simp add: d_def)
    moreover have "\<forall>a. be_value t a (d # ds) * 2 ^ (b mod t) + acc mod 2 ^ (b mod t) = a * 2 ^ b + acc mod 2 ^ b"
    proof
      fix a
      have "be_value t a (d # ds) * 2 ^ (b mod t) + acc mod 2 ^ (b mod t)
            = (a * 2 ^ t + d) * 2 ^ (b - t) + acc mod 2 ^ (b - t)"
        using ds(4) by (simp add: m)
      also have "\<dots> = a * (2 ^ t * 2 ^ (b - t)) + (d * 2 ^ (b - t) + acc mod 2 ^ (b - t))"
        by (simp add: algebra_simps)
      also have "2 ^ t * 2 ^ (b - t) = (2::int) ^ b" using False by (simp flip: power_add)
      also have "d * 2 ^ (b - t) + acc mod 2 ^ (b - t) = acc mod 2 ^ b"
        unfolding d_def using False by (intro split_mod_exp) simp
      finally show "be_value t a (d # ds) * 2 ^ (b mod t) + acc mod 2 ^ (b mod t) = a * 2 ^ b + acc mod 2 ^ b" .
    qed
    ultimately show ?thesis by blast
  qed
qed

section \<open>The bit repacking of convertBits\<close>

lemma be_value_append: "be_value w a (xs @ ys) = be_value w (be_value w a xs) ys"
  by (induction xs arbitrary: a) simp_all

lemma shift_in_mod:
  fixes acc v :: int
  assumes "0 \<le> v" "v < 2 ^ f"
  shows "(acc * 2 ^ f + v) mod 2 ^ (b + f) = (acc mod 2 ^ b) * 2 ^ f + v"
proof -
  have "(acc * 2 ^ f + v) mod (2 ^ f * 2 ^ b)
        = 2 ^ f * ((acc * 2 ^ f + v) div 2 ^ f mod 2 ^ b) + (acc * 2 ^ f + v) mod 2 ^ f"
    by (rule zmod_zmult2_eq) simp
  moreover have "(acc * 2 ^ f + v) div 2 ^ f = acc"
    using assms by simp
  moreover have "(acc * 2 ^ f + v) mod 2 ^ f = v"
    using assms by simp
  ultimately show ?thesis by (simp add: power_add mult.commute)
qed

lemma convertBits_step_acc:
  assumes "0 < f" "0 < t" "2 * f + t \<le> 32"
    and "0 \<le> v" "v < 2 ^ f" "0 \<le> acc" "acc < 2 ^ (f + t - 1)"
  shows "js_and (js_or (js_shl acc (int f)) v) (2 ^ (f + t - 1) - 1) = (acc * 2 ^ f + v) mod 2 ^ (f + t - 1)"
proof -
  have "acc + 1 \<le> 2 ^ (f + t - 1)" using assms(7) by simp
  then have "(acc + 1) * 2 ^ f \<le> 2 ^ (f + t - 1) * (2::int) ^ f"
    by (intro mult_right_mono) simp_all
  also have "\<dots> = 2 ^ (2 * f + t - 1)" by (simp flip: power_add add: mult_2)
  also have "\<dots> \<le> (2::int) ^ 31" using assms(3) by (intro power_increasing) simp_all
  finally have up: "acc * 2 ^ f + 2 ^ f \<le> 2 ^ 31" by (simp add: algebra_simps)
  have s: "acc * 2 ^ f + v < 2 ^ 31" using up assms(5) by linarith
  have p: "0 < (2::int) ^ f" by simp
  have s0: "acc * 2 ^ f < 2 ^ 31" using up p by linarith
  have nn: "0 \<le> acc * 2 ^ f" using assms(6) by simp
  have 1: "js_shl acc (int f) = acc * 2 ^ f"
    using assms s0 by (intro js_shl_mult) simp_all
  have 2: "js_or (acc * 2 ^ f) v = acc * 2 ^ f + v"
    using assms s by (intro js_or_add) simp_all
  have 3: "js_and (acc * 2 ^ f + v) (2 ^ (f + t - 1) - 1) = (acc * 2 ^ f + v) mod 2 ^ (f + t - 1)"
    using assms s nn by (intro js_and_mask) simp_all
  show ?thesis by (simp only: 1 2 3)
qed

lemma convertBits_for_spec:
  assumes "0 < f" "0 < t" "2 * f + t \<le> 32"
    and "\<forall>x\<in>set xs. 0 \<le> x \<and> x < 2 ^ f" "0 \<le> acc" "acc < 2 ^ (f + t - 1)" "b < t"
  shows "\<exists>acc' b' ds.
           convertBits_for (int f) (int t) (2 ^ t - 1) (2 ^ (f + t - 1) - 1) xs (acc, int b, ret)
             = Some (Some (acc', int b', ret @ ds))
         \<and> 0 \<le> acc' \<and> acc' < 2 ^ (f + t - 1) \<and> b' < t
         \<and> t * length ds + b' = b + f * length xs
         \<and> (\<forall>d\<in>set ds. 0 \<le> d \<and> d < 2 ^ t)
         \<and> (\<forall>a. be_value t a ds * 2 ^ b' + acc' mod 2 ^ b' = be_value f (a * 2 ^ b + acc mod 2 ^ b) xs)"
  using assms(4-7)
proof (induction xs arbitrary: acc b ret)
  case Nil
  then show ?case by (intro exI [of _ acc] exI [of _ b] exI [of _ "[]"]) simp
next
  case (Cons v xs)
  define acc1 where "acc1 = (acc * 2 ^ f + v) mod 2 ^ (f + t - 1)"
  have v: "0 \<le> v" "v < 2 ^ f" using Cons.prems(1) by simp_all
  have f31: "(2::int) ^ f \<le> 2 ^ 31" using assms(3) by (intro power_increasing) simp_all
  have ft31: "(2::int) ^ (f + t - 1) \<le> 2 ^ 31" using assms(3) by (intro power_increasing) simp_all
  have chk: "js_shr v (int f) = 0"
    using v f31 assms(3) by (simp add: js_shr_div)
  have a1: "js_and (js_or (js_shl acc (int f)) v) (2 ^ (f + t - 1) - 1) = acc1"
    unfolding acc1_def using assms(1-3) v Cons.prems(2,3) by (rule convertBits_step_acc)
  have a1r: "0 \<le> acc1" "acc1 < 2 ^ (f + t - 1)" by (simp_all add: acc1_def)
  have a131: "acc1 < 2 ^ 31" using a1r(2) ft31 by linarith
  have bf: "b + f < 32" "b + f \<le> f + t - 1" using Cons.prems(4) assms(1-3) by simp_all
  have t32: "t < 32" using assms(1,3) by simp
  from convertBits_while_spec [OF assms(2) t32 a1r(1) a131 bf(1), of "ret"]
  obtain ds1 where w:
    "convertBits_while (int t) (2 ^ t - 1) acc1 (int (b + f)) ret = Some (int ((b + f) mod t), ret @ ds1)"
    "length ds1 = (b + f) div t"
    "\<forall>d\<in>set ds1. 0 \<le> d \<and> d < 2 ^ t"
    "\<forall>a. be_value t a ds1 * 2 ^ ((b + f) mod t) + acc1 mod 2 ^ ((b + f) mod t) = a * 2 ^ (b + f) + acc1 mod 2 ^ (b + f)"
    by blast
  have m1: "acc1 mod 2 ^ (b + f) = (acc mod 2 ^ b) * 2 ^ f + v"
  proof -
    have "(2::int) ^ (b + f) dvd 2 ^ (f + t - 1)" using bf(2) by (rule le_imp_power_dvd)
    then have "acc1 mod 2 ^ (b + f) = (acc * 2 ^ f + v) mod 2 ^ (b + f)"
      unfolding acc1_def by (rule mod_mod_cancel)
    then show ?thesis using v by (simp add: shift_in_mod)
  qed
  have bt: "(b + f) mod t < t" using assms(2) by simp
  have xs: "\<forall>x\<in>set xs. 0 \<le> x \<and> x < 2 ^ f" using Cons.prems(1) by simp
  from Cons.IH [OF xs a1r(1) a1r(2) bt, of "ret @ ds1"]
  obtain acc' b' ds2 where r:
    "convertBits_for (int f) (int t) (2 ^ t - 1) (2 ^ (f + t - 1) - 1) xs (acc1, int ((b + f) mod t), ret @ ds1)
       = Some (Some (acc', int b', (ret @ ds1) @ ds2))"
    "0 \<le> acc'" "acc' < 2 ^ (f + t - 1)" "b' < t"
    "t * length ds2 + b' = (b + f) mod t + f * length xs"
    "\<forall>d\<in>set ds2. 0 \<le> d \<and> d < 2 ^ t"
    "\<forall>a. be_value t a ds2 * 2 ^ b' + acc' mod 2 ^ b' = be_value f (a * 2 ^ ((b + f) mod t) + acc1 mod 2 ^ ((b + f) mod t)) xs"
    by blast
  have res: "convertBits_for (int f) (int t) (2 ^ t - 1) (2 ^ (f + t - 1) - 1) (v # xs) (acc, int b, ret)
       = Some (Some (acc', int b', ret @ (ds1 @ ds2)))"
    using v chk a1 w(1) r(1) by (simp add: Let_def)
  have len: "t * length (ds1 @ ds2) + b' = b + f * length (v # xs)"
  proof -
    have e: "t * ((b + f) div t) + (b + f) mod t = b + f" by simp
    have l1: "length (ds1 @ ds2) = (b + f) div t + length ds2" using w(2) by simp
    have l2: "length (v # xs) = Suc (length xs)" by simp
    show ?thesis unfolding l1 l2 using e r(5) by (simp only: distrib_left mult_Suc_right)
  qed
  have rng: "\<forall>d\<in>set (ds1 @ ds2). 0 \<le> d \<and> d < 2 ^ t" using w(3) r(6) by auto
  have val: "\<forall>a. be_value t a (ds1 @ ds2) * 2 ^ b' + acc' mod 2 ^ b' = be_value f (a * 2 ^ b + acc mod 2 ^ b) (v # xs)"
  proof
    fix a
    have "be_value t a (ds1 @ ds2) * 2 ^ b' + acc' mod 2 ^ b'
          = be_value f (be_value t a ds1 * 2 ^ ((b + f) mod t) + acc1 mod 2 ^ ((b + f) mod t)) xs"
      using r(7) by (simp add: be_value_append)
    also have "be_value t a ds1 * 2 ^ ((b + f) mod t) + acc1 mod 2 ^ ((b + f) mod t)
          = a * 2 ^ (b + f) + ((acc mod 2 ^ b) * 2 ^ f + v)"
      using w(4) m1 by simp
    also have "\<dots> = (a * 2 ^ b + acc mod 2 ^ b) * 2 ^ f + v"
      by (simp add: power_add algebra_simps)
    finally show "be_value t a (ds1 @ ds2) * 2 ^ b' + acc' mod 2 ^ b' = be_value f (a * 2 ^ b + acc mod 2 ^ b) (v # xs)"
      by simp
  qed
  from res r(2,3,4) len rng val show ?case by blast
qed


lemma convertBits_final_chunk:
  assumes "0 < t" "f + 2 * t \<le> 32" "0 \<le> acc" "acc < 2 ^ (f + t - 1)" "b < t"
  shows "js_and (js_shl acc (int t - int b)) (2 ^ t - 1) = (acc mod 2 ^ b) * 2 ^ (t - b)"
proof -
  have i: "int t - int b = int (t - b)" using assms(5) by simp
  have "acc * 2 ^ (t - b) < 2 ^ (f + t - 1) * (2::int) ^ (t - b)"
    using assms(4) by (intro mult_strict_right_mono) simp_all
  also have "\<dots> = 2 ^ (f + t - 1 + (t - b))" by (simp only: power_add)
  also have "\<dots> \<le> (2::int) ^ 31" using assms(1,2,5) by (intro power_increasing) simp_all
  finally have lt: "acc * 2 ^ (t - b) < 2 ^ 31" .
  have nn: "0 \<le> acc * 2 ^ (t - b)" using assms(3) by simp
  have 1: "js_shl acc (int (t - b)) = acc * 2 ^ (t - b)"
    using assms lt by (intro js_shl_mult) simp_all
  have 2: "js_and (acc * 2 ^ (t - b)) (2 ^ t - 1) = (acc * 2 ^ (t - b)) mod 2 ^ t"
    using assms nn lt by (intro js_and_mask) simp_all
  have "(2::int) ^ t = 2 ^ b * 2 ^ (t - b)" using assms(5) by (simp flip: power_add)
  then have 3: "(acc * 2 ^ (t - b)) mod 2 ^ t = (acc mod 2 ^ b) * 2 ^ (t - b)"
    by (simp only: mult_mod_left)
  show ?thesis unfolding i by (simp only: 1 2 3)
qed

lemma js_shl_one: "k < 31 \<Longrightarrow> js_shl 1 (int k) = 2 ^ k"
proof -
  assume k: "k < 31"
  then have "(2::int) ^ k < 2 ^ 31" by (intro power_strict_increasing) simp_all
  then show ?thesis using k js_shl_mult [of 1 k] by simp
qed

lemma be_value_inj:
  assumes "length xs = length ys"
    and "\<forall>x\<in>set xs. 0 \<le> x \<and> x < 2 ^ w" "\<forall>y\<in>set ys. 0 \<le> y \<and> y < 2 ^ w"
    and "be_value w a xs = be_value w a ys"
  shows "xs = ys"
  using assms
proof (induction xs arbitrary: ys rule: rev_induct)
  case Nil
  then show ?case by simp
next
  case (snoc x xs)
  from snoc.prems(1) obtain y ys' where ys: "ys = ys' @ [y]"
    by (cases ys rule: rev_cases) simp_all
  have x: "0 \<le> x" "x < 2 ^ w" and y: "0 \<le> y" "y < 2 ^ w"
    using snoc.prems(2,3) ys by simp_all
  have e: "be_value w a xs * 2 ^ w + x = be_value w a ys' * 2 ^ w + y"
    using snoc.prems(4) ys by (simp add: be_value_append)
  have "(be_value w a xs * 2 ^ w + x) mod 2 ^ w = x" using x by simp
  moreover have "(be_value w a ys' * 2 ^ w + y) mod 2 ^ w = y" using y by simp
  ultimately have xy: "x = y" using e by simp
  have "(be_value w a xs * 2 ^ w + x) div 2 ^ w = be_value w a xs" using x by simp
  moreover have "(be_value w a ys' * 2 ^ w + y) div 2 ^ w = be_value w a ys'" using y by simp
  ultimately have "be_value w a xs = be_value w a ys'" using e by simp
  moreover have "length xs = length ys'" using snoc.prems(1) ys by simp
  ultimately have "xs = ys'" using snoc.IH [of ys'] snoc.prems(2,3) ys by simp
  with xy ys show ?case by simp
qed

text \<open>What convertBits returns with padding, on digits in range.\<close>

lemma convertBits_pad_spec:
  assumes "0 < f" "0 < t" "2 * f + t \<le> 32" "f + 2 * t \<le> 32"
    and "\<forall>x\<in>set xs. 0 \<le> x \<and> x < 2 ^ f"
  shows "\<exists>out p. convertBits xs (int f) (int t) True = Some (Some (Uint8Array_of out))
           \<and> p < t \<and> t * length out = f * length xs + p
           \<and> (\<forall>d\<in>set out. 0 \<le> d \<and> d < 2 ^ t)
           \<and> be_value t 0 out = be_value f 0 xs * 2 ^ p"
proof -
  have t31: "t < 31" and ft31: "f + t - 1 < 31" using assms(1-4) by simp_all
  have maxv: "js_shl 1 (int t) - 1 = 2 ^ t - 1" using t31 by (simp add: js_shl_one)
  have "int f + int t - 1 = int (f + t - 1)" using assms(1) by simp
  then have maxAcc: "js_shl 1 (int f + int t - 1) - 1 = 2 ^ (f + t - 1) - 1"
    using ft31 by (simp only: js_shl_one)
  from convertBits_for_spec [OF assms(1-3) assms(5), of 0 0 "[]"] assms(2)
  obtain acc' b' ds where r:
    "convertBits_for (int f) (int t) (2 ^ t - 1) (2 ^ (f + t - 1) - 1) xs (0, 0, []) = Some (Some (acc', int b', ds))"
    "0 \<le> acc'" "acc' < 2 ^ (f + t - 1)" "b' < t"
    "t * length ds + b' = f * length xs"
    "\<forall>d\<in>set ds. 0 \<le> d \<and> d < 2 ^ t"
    "\<forall>a. be_value t a ds * 2 ^ b' + acc' mod 2 ^ b' = be_value f a xs"
    by auto
  show ?thesis
  proof (cases "b' = 0")
    case True
    have "convertBits xs (int f) (int t) True = Some (Some (Uint8Array_of ds))"
      unfolding convertBits_def maxv maxAcc using r(1) True by (simp add: Let_def)
    moreover have "t * length ds = f * length xs + 0" using r(5) True by simp
    moreover have "be_value t 0 ds = be_value f 0 xs * 2 ^ 0" using r(7) True by simp
    ultimately show ?thesis using r(6) assms(2) by blast
  next
    case False
    define l where "l = (acc' mod 2 ^ b') * 2 ^ (t - b')"
    have l: "js_and (js_shl acc' (int t - int b')) (2 ^ t - 1) = l"
      unfolding l_def using assms(2,4) r(2,3,4) by (rule convertBits_final_chunk)
    have "convertBits xs (int f) (int t) True = Some (Some (Uint8Array_of (ds @ [l])))"
      unfolding convertBits_def maxv maxAcc using r(1) False l by (simp add: Let_def)
    moreover have "t - b' < t" using False r(4) by simp
    moreover have "t * length (ds @ [l]) = f * length xs + (t - b')"
      using r(4,5) by (simp add: algebra_simps)
    moreover have "\<forall>d\<in>set (ds @ [l]). 0 \<le> d \<and> d < 2 ^ t"
    proof -
      have "0 \<le> l" by (simp add: l_def)
      moreover have "l < 2 ^ t"
      proof -
        have "acc' mod 2 ^ b' < 2 ^ b'" by simp
        then have "l < 2 ^ b' * 2 ^ (t - b')" unfolding l_def by (intro mult_strict_right_mono) simp_all
        also have "\<dots> = (2::int) ^ t" using r(4) by (simp flip: power_add)
        finally show ?thesis .
      qed
      ultimately show ?thesis using r(6) by simp
    qed
    moreover have "be_value t 0 (ds @ [l]) = be_value f 0 xs * 2 ^ (t - b')"
    proof -
      have "be_value t 0 (ds @ [l]) = be_value t 0 ds * 2 ^ t + l" by (simp add: be_value_append)
      also have "(2::int) ^ t = 2 ^ b' * 2 ^ (t - b')" using r(4) by (simp flip: power_add)
      finally have "be_value t 0 (ds @ [l]) = (be_value t 0 ds * 2 ^ b' + acc' mod 2 ^ b') * 2 ^ (t - b')"
        by (simp add: l_def algebra_simps)
      then show ?thesis using r(7) by simp
    qed
    ultimately show ?thesis by blast
  qed
qed

section \<open>Claim C4: the round trip 8 to 5 to 8 bits\<close>

text \<open>What convertBits returns without padding, on digits in range.\<close>

lemma convertBits_strict_spec:
  assumes "0 < f" "0 < t" "2 * f + t \<le> 32" "f + 2 * t \<le> 32"
    and "\<forall>x\<in>set xs. 0 \<le> x \<and> x < 2 ^ f"
  shows "\<exists>acc' b' ds. b' < t \<and> t * length ds + b' = f * length xs
           \<and> (\<forall>d\<in>set ds. 0 \<le> d \<and> d < 2 ^ t)
           \<and> be_value t 0 ds * 2 ^ b' + acc' mod 2 ^ b' = be_value f 0 xs
           \<and> convertBits xs (int f) (int t) False
               = (if f \<le> b' \<or> acc' mod 2 ^ b' \<noteq> 0 then Some None else Some (Some (Uint8Array_of ds)))"
proof -
  have t31: "t < 31" and ft31: "f + t - 1 < 31" using assms(1-4) by simp_all
  have maxv: "js_shl 1 (int t) - 1 = 2 ^ t - 1" using t31 by (simp add: js_shl_one)
  have "int f + int t - 1 = int (f + t - 1)" using assms(1) by simp
  then have maxAcc: "js_shl 1 (int f + int t - 1) - 1 = 2 ^ (f + t - 1) - 1"
    using ft31 by (simp only: js_shl_one)
  from convertBits_for_spec [OF assms(1-3) assms(5), of 0 0 "[]"] assms(2)
  obtain acc' b' ds where r:
    "convertBits_for (int f) (int t) (2 ^ t - 1) (2 ^ (f + t - 1) - 1) xs (0, 0, []) = Some (Some (acc', int b', ds))"
    "0 \<le> acc'" "acc' < 2 ^ (f + t - 1)" "b' < t"
    "t * length ds + b' = f * length xs"
    "\<forall>d\<in>set ds. 0 \<le> d \<and> d < 2 ^ t"
    "\<forall>a. be_value t a ds * 2 ^ b' + acc' mod 2 ^ b' = be_value f a xs"
    by auto
  have l: "js_and (js_shl acc' (int t - int b')) (2 ^ t - 1) = (acc' mod 2 ^ b') * 2 ^ (t - b')"
    using assms(2,4) r(2,3,4) by (rule convertBits_final_chunk)
  have "convertBits xs (int f) (int t) False
          = (if f \<le> b' \<or> acc' mod 2 ^ b' \<noteq> 0 then Some None else Some (Some (Uint8Array_of ds)))"
    unfolding convertBits_def maxv maxAcc using r(1) l by (simp add: Let_def)
  with r(4,5,6,7) show ?thesis by blast
qed

lemma numbers_Uint8Array_of:
  "\<forall>x\<in>set xs. 0 \<le> x \<and> x < 256 \<Longrightarrow> numbers (Uint8Array_of xs) = xs"
  by (induction xs) (simp_all add: numbers_def Uint8Array_of_def uint_word_of_int take_bit_int_eq_self)

lemma pad_8_5:
  assumes "\<forall>x\<in>set xs. 0 \<le> x \<and> x < 256"
  shows "\<exists>out p. convertBits xs 8 5 True = Some (Some (Uint8Array_of out))
           \<and> p < 5 \<and> 5 * length out = 8 * length xs + p
           \<and> (\<forall>d\<in>set out. 0 \<le> d \<and> d < 32)
           \<and> be_value 5 0 out = be_value 8 0 xs * 2 ^ p"
proof -
  have "\<forall>x\<in>set xs. 0 \<le> x \<and> x < 2 ^ 8" using assms by simp
  then show ?thesis using convertBits_pad_spec [of 8 5 xs] by simp
qed

lemma strict_5_8:
  assumes "\<forall>x\<in>set xs. 0 \<le> x \<and> x < 32"
  shows "\<exists>acc' b' ds. b' < 8 \<and> 8 * length ds + b' = 5 * length xs
           \<and> (\<forall>d\<in>set ds. 0 \<le> d \<and> d < 256)
           \<and> be_value 8 0 ds * 2 ^ b' + acc' mod 2 ^ b' = be_value 5 0 xs
           \<and> convertBits xs 5 8 False
               = (if 5 \<le> b' \<or> acc' mod 2 ^ b' \<noteq> 0 then Some None else Some (Some (Uint8Array_of ds)))"
proof -
  have "\<forall>x\<in>set xs. 0 \<le> x \<and> x < 2 ^ 5" using assms by simp
  then show ?thesis using convertBits_strict_spec [of 5 8 xs] by simp
qed

text \<open>
  C4. For every sequence of bytes, convertBits from 8 to 5 bits with padding returns an
  array, and convertBits from 5 to 8 bits without padding, applied to that array, returns
  an array holding exactly the original bytes.
\<close>

theorem convertBits_roundtrip:
  assumes "\<forall>x\<in>set xs. 0 \<le> x \<and> x < 256"
  shows "\<exists>ys zs. convertBits xs 8 5 True = Some (Some ys)
           \<and> convertBits (numbers ys) 5 8 False = Some (Some zs)
           \<and> numbers zs = xs"
proof -
  from pad_8_5 [OF assms]
  obtain out p where e:
    "convertBits xs 8 5 True = Some (Some (Uint8Array_of out))"
    "p < 5" "5 * length out = 8 * length xs + p"
    "\<forall>d\<in>set out. 0 \<le> d \<and> d < 32"
    "be_value 5 0 out = be_value 8 0 xs * 2 ^ p"
    by blast
  have out256: "\<forall>x\<in>set out. 0 \<le> x \<and> x < 256"
  proof
    fix x assume "x \<in> set out"
    with e(4) have "0 \<le> x \<and> x < 32" by blast
    then show "0 \<le> x \<and> x < 256" by linarith
  qed
  have n: "numbers (Uint8Array_of out) = out" using out256 by (rule numbers_Uint8Array_of)
  from strict_5_8 [OF e(4)]
  obtain acc' b' ds where d:
    "b' < 8" "8 * length ds + b' = 5 * length out"
    "\<forall>d\<in>set ds. 0 \<le> d \<and> d < 256"
    "be_value 8 0 ds * 2 ^ b' + acc' mod 2 ^ b' = be_value 5 0 out"
    "convertBits out 5 8 False
       = (if 5 \<le> b' \<or> acc' mod 2 ^ b' \<noteq> 0 then Some None else Some (Some (Uint8Array_of ds)))"
    by blast
  have eq: "8 * length ds + b' = 8 * length xs + p" using d(2) e(3) by simp
  then have "(8 * length ds + b') mod 8 = (8 * length xs + p) mod 8" by (rule arg_cong)
  then have bp: "b' = p" using d(1) e(2) by simp
  have len: "length ds = length xs" using eq bp by simp
  have v: "be_value 8 0 ds * 2 ^ p + acc' mod 2 ^ p = be_value 8 0 xs * 2 ^ p"
    using d(4) e(5) bp by simp
  have "(be_value 8 0 ds * 2 ^ p + acc' mod 2 ^ p) mod 2 ^ p = acc' mod 2 ^ p" by simp
  moreover have "(be_value 8 0 xs * 2 ^ p) mod 2 ^ p = 0" by simp
  ultimately have z: "acc' mod 2 ^ p = 0" using v by simp
  then have "be_value 8 0 ds = be_value 8 0 xs" using v by simp
  moreover have "\<forall>x\<in>set ds. 0 \<le> x \<and> x < 2 ^ 8" using d(3) by simp
  moreover have "\<forall>x\<in>set xs. 0 \<le> x \<and> x < 2 ^ 8" using assms by simp
  ultimately have dx: "ds = xs" using len by (intro be_value_inj [of ds xs 8 0])
  have "convertBits out 5 8 False = Some (Some (Uint8Array_of xs))"
    using z bp e(2) dx by (simp add: d(5))
  moreover have "numbers (Uint8Array_of xs) = xs" using assms by (rule numbers_Uint8Array_of)
  ultimately show ?thesis using e(1) n by simp
qed

lemma numbers_inj: "numbers a = numbers b \<Longrightarrow> a = b"
  unfolding numbers_def by (induction a arbitrary: b) (auto intro: word_uint_eqI)

theorem convertBits_roundtrip_witness:
  "convertBits [0, 255, 1, 7] 8 5 True = Some (Some [0, 3, 31, 16, 2, 1, 24])
   \<and> convertBits (numbers [0, 3, 31, 16, 2, 1, 24]) 5 8 False = Some (Some [0, 255, 1, 7])"
proof -
  have h: "\<forall>x\<in>set [0, 255, 1, 7 :: int]. 0 \<le> x \<and> x < 256" by simp
  have c: "convertBits [0, 255, 1, 7] 8 5 True = Some (Some [0, 3, 31, 16, 2, 1, 24])" by code_simp
  from convertBits_roundtrip [OF h] obtain ys zs where r:
    "convertBits [0, 255, 1, 7] 8 5 True = Some (Some ys)"
    "convertBits (numbers ys) 5 8 False = Some (Some zs)"
    "numbers zs = [0, 255, 1, 7]"
    by blast
  from r(1) c have ys: "ys = [0, 3, 31, 16, 2, 1, 24]" by simp
  have "numbers [0, 255, 1, 7] = [0, 255, 1, 7]" by code_simp
  with r(3) have "numbers zs = numbers [0, 255, 1, 7]" by (rule trans [OF _ sym])
  then have "zs = [0, 255, 1, 7]" by (rule numbers_inj)
  with r(2) ys c show ?thesis by simp
qed

section \<open>Claim C5: the range of polymod\<close>

lemma ToInt32_range: "- (2 ^ 31) \<le> ToInt32 x \<and> ToInt32 x < 2 ^ 31"
  unfolding ToInt32_def
  using signed_take_bit_int_greater_eq_minus_exp [of 31 x] signed_take_bit_int_less_exp [of 31 x]
  by simp

lemma js_xor_small:
  assumes "0 \<le> a" "a < 2 ^ 8" "0 \<le> g" "g < 2 ^ 8"
  shows "0 \<le> js_xor a g \<and> js_xor a g < 2 ^ 8"
proof -
  have x: "0 \<le> a XOR g" "a XOR g < 2 ^ 8"
    using assms(1,3) XOR_upper [OF assms(1,2,4)] by simp_all
  have "ToInt32 a = a" "ToInt32 g = g" "ToInt32 (a XOR g) = a XOR g"
    using assms x by (simp_all add: ToInt32_nonneg)
  then show ?thesis using x by (simp add: js_xor_def)
qed

lemma GENERATOR1_range: "i < 5 \<Longrightarrow> 0 \<le> GENERATOR1 ! i \<and> GENERATOR1 ! i < 2 ^ 8"
proof -
  assume "i < 5"
  then consider "i = 0" | "i = 1" | "i = 2" | "i = 3" | "i = 4" by linarith
  then show ?thesis by cases (simp_all add: GENERATOR1_def)
qed

lemma polymod_generators_c0:
  assumes "\<forall>i\<in>set is. i < 5" "0 \<le> c0" "c0 < 2 ^ 8"
  shows "0 \<le> fst (polymod_generators C is (c0, c1)) \<and> fst (polymod_generators C is (c0, c1)) < 2 ^ 8"
  using assms
proof (induction "is" arbitrary: c0 c1)
  case Nil
  then show ?case by simp
next
  case (Cons i "is")
  have i: "i < 5" and r: "\<forall>i\<in>set is. i < 5" using Cons.prems(1) by simp_all
  have x: "0 \<le> js_xor c0 (GENERATOR1 ! i)" "js_xor c0 (GENERATOR1 ! i) < 2 ^ 8"
    using js_xor_small [OF Cons.prems(2,3)] GENERATOR1_range [OF i] by blast+
  show ?case
    using Cons.IH [OF r x, of "js_xor c1 (GENERATOR2 ! i)"] Cons.IH [OF r Cons.prems(2,3), of c1]
    by simp
qed

lemma polymod_step_c0:
  "0 \<le> fst (polymod_step d (c0, c1)) \<and> fst (polymod_step d (c0, c1)) < 2 ^ 8"
proof -
  define x where "x = js_and c0 7"
  define u where "u = js_ushr c1 27"
  have x: "0 \<le> x" "x \<le> 7"
  proof -
    have 7: "ToInt32 7 = 7" by (simp add: ToInt32_nonneg)
    have a: "0 \<le> ToInt32 c0 AND 7" "ToInt32 c0 AND 7 \<le> 7" by simp_all
    then have "ToInt32 (ToInt32 c0 AND 7) = ToInt32 c0 AND 7" by (intro ToInt32_nonneg) simp_all
    then show "0 \<le> x" "x \<le> 7" using a by (simp_all add: x_def js_and_def 7)
  qed
  have u: "0 \<le> u" "u < 2 ^ 5"
  proof -
    have s: "shiftCount 27 = 27" using shiftCount_small [of 27] by simp
    have t: "0 \<le> take_bit 32 c1" "take_bit 32 c1 < 2 ^ 32"
      using take_bit_int_less_exp [of 32 c1] by simp_all
    have "take_bit 32 c1 div 2 ^ 27 < 2 ^ 5" using t by simp
    moreover have "0 \<le> take_bit 32 c1 div 2 ^ 27" by (simp add: pos_imp_zdiv_nonneg_iff)
    ultimately show "0 \<le> u" "u < 2 ^ 5" by (simp_all add: u_def js_ushr_def s ToUint32_def drop_bit_eq_div)
  qed
  have sh: "js_shl x 5 = x * 2 ^ 5" using x js_shl_mult [of x 5] by simp
  have "js_or (x * 2 ^ 5) u = x * 2 ^ 5 + u" using x u by (intro js_or_add) simp_all
  then have o: "0 \<le> js_or (js_shl x 5) u" "js_or (js_shl x 5) u < 2 ^ 8" using x u sh by simp_all
  have g: "\<forall>i\<in>set [0 ..< length GENERATOR1]. i < 5" by (simp add: GENERATOR1_def)
  show ?thesis
    unfolding polymod_step_def
    using polymod_generators_c0 [OF g o]
    by (simp add: Let_def x_def u_def)
qed

lemma polymod_loop_c0:
  assumes "0 \<le> c0" "c0 < 2 ^ 8"
  shows "0 \<le> fst (polymod_loop data (c0, c1)) \<and> fst (polymod_loop data (c0, c1)) < 2 ^ 8"
  using assms
proof (induction data arbitrary: c0 c1)
  case Nil
  then show ?case by simp
next
  case (Cons d data)
  obtain c0' c1' where s: "polymod_step d (c0, c1) = (c0', c1')" by (cases "polymod_step d (c0, c1)")
  have "0 \<le> c0' \<and> c0' < 2 ^ 8" using polymod_step_c0 [of d c0 c1] s by simp
  then show ?case using Cons.IH [of c0' c1'] s by simp
qed

lemma xor_sign_bit:
  fixes y :: int
  assumes "- (2 ^ 31) \<le> y" "y < 0"
  shows "y XOR - (2 ^ 31) = y + 2 ^ 31"
proof -
  define r where "r = y + 2 ^ 31"
  have r: "0 \<le> r" "r < 2 ^ 31" using assms by (simp_all add: r_def)
  have tr: "take_bit 31 r = r" using r by (simp add: take_bit_int_eq_self)
  have "y = r + push_bit 31 (- 1)" by (simp add: r_def push_bit_eq_mult)
  also have "\<dots> = concat_bit 31 r (- 1)" by (simp add: concat_bit_eq tr)
  finally have y: "y = concat_bit 31 r (- 1)" .
  have M: "- (2 ^ 31) = concat_bit 31 0 (- 1 :: int)" by (simp add: push_bit_eq_mult)
  have "concat_bit 31 r (- 1) XOR concat_bit 31 0 (- 1) = take_bit 31 r"
    by (rule bit_eqI) (auto simp: bit_simps)
  then have "concat_bit 31 r (- 1) XOR - (2 ^ 31) = r" by (simp only: M tr)
  then have "y XOR - (2 ^ 31) = r" by (simp only: y [symmetric])
  then show ?thesis by (simp only: r_def)
qed


lemma polymod_sign_fix:
  assumes "- (2 ^ 31) \<le> y" "y < 2 ^ 31"
  shows "(if y < 0 then js_xor y (js_shl 1 31) + js_shl 1 30 * 2 else y) = ToUint32 y"
proof (cases "y < 0")
  case True
  have s31: "js_shl 1 31 = - (2 ^ 31)" by code_simp
  have s30: "js_shl 1 30 = 2 ^ 30" using js_shl_one [of 30] by simp
  have m: "ToInt32 (- (2 ^ 31)) = - (2 ^ 31)" by (rule ToInt32_id) simp_all
  have y: "ToInt32 y = y" using assms by (rule ToInt32_id)
  have x: "y XOR - (2 ^ 31) = y + 2 ^ 31" using assms(1) True by (rule xor_sign_bit)
  have "ToInt32 (y + 2 ^ 31) = y + 2 ^ 31" using assms(1) True by (intro ToInt32_nonneg) simp_all
  then have "js_xor y (- (2 ^ 31)) = y + 2 ^ 31" by (simp only: js_xor_def m y x)
  moreover have "ToUint32 y = y + 2 ^ 32"
  proof -
    have "(y + 2 ^ 32) mod 2 ^ 32 = y + 2 ^ 32" using assms(1) True by (intro mod_pos_pos_trivial) simp_all
    then show ?thesis by (simp add: ToUint32_def take_bit_eq_mod)
  qed
  ultimately show ?thesis using True by (simp add: s31 s30)
next
  case False
  then have "ToUint32 y = y" using assms(2) by (simp add: ToUint32_def take_bit_int_eq_self)
  with False show ?thesis by simp
qed

lemma polymod_eq:
  "polymod data = fst (polymod_loop data (0, 1)) * 2 ^ 32
                  + ToUint32 (js_xor (snd (polymod_loop data (0, 1))) 1)"
proof -
  obtain c0 c1 where l: "polymod_loop data (0, 1) = (c0, c1)" by (cases "polymod_loop data (0, 1)")
  have s30: "js_shl 1 30 = 2 ^ 30" using js_shl_one [of 30] by simp
  have r: "- (2 ^ 31) \<le> js_xor c1 1" "js_xor c1 1 < 2 ^ 31"
    using ToInt32_range [of "ToInt32 c1 XOR ToInt32 1"] by (simp_all add: js_xor_def)
  show ?thesis
    unfolding polymod_def l using polymod_sign_fix [OF r] by (simp add: Let_def s30)
qed

lemma polymod_bounds: "0 \<le> polymod data \<and> polymod data < 2 ^ 40"
proof -
  have c: "0 \<le> fst (polymod_loop data (0, 1))" "fst (polymod_loop data (0, 1)) < 2 ^ 8"
    using polymod_loop_c0 [of 0 data 1] by simp_all
  define u where "u = ToUint32 (js_xor (snd (polymod_loop data (0, 1))) 1)"
  have u: "0 \<le> u" "u < 2 ^ 32"
    using take_bit_int_less_exp [of 32] by (simp_all add: u_def ToUint32_def)
  have "fst (polymod_loop data (0, 1)) * 2 ^ 32 + u < 2 ^ 40" using c u by simp
  moreover have "0 \<le> fst (polymod_loop data (0, 1)) * 2 ^ 32 + u" using c u by simp
  ultimately show ?thesis unfolding polymod_eq u_def by simp
qed

text \<open>
  C5. For every sequence of numbers, in particular of 5-bit symbols, polymod returns a
  non-negative integer below \<open>2^40\<close>: the high accumulator word times \<open>2^32\<close> plus the
  low accumulator word XOR 1 read as an unsigned 32-bit value, although the bitwise
  operators leave the low word as a signed 32-bit number.
\<close>

theorem polymod_result:
  "0 \<le> polymod data \<and> polymod data < 2 ^ 40
   \<and> polymod data = fst (polymod_loop data (0, 1)) * 2 ^ 32
                      + ToUint32 (js_xor (snd (polymod_loop data (0, 1))) 1)"
  using polymod_bounds [of data] polymod_eq [of data] by simp

theorem polymod_result_witness:
  "0 \<le> polymod [1, 2, 3] \<and> polymod [1, 2, 3] < 2 ^ 40"
  using polymod_result [of "[1, 2, 3]"] by simp

section \<open>Claim C6: the digits of checksumToArray\<close>

lemma js_and_31: "js_and m 31 = m mod 32"
proof -
  have 31: "ToInt32 31 = 31" by (simp add: ToInt32_nonneg)
  have "ToInt32 m AND 31 = take_bit 5 (ToInt32 m)" by (simp add: take_bit_eq_mask mask_eq_exp_minus_1)
  also have "\<dots> = take_bit 5 m" unfolding ToInt32_def by (rule take_bit_signed_take_bit) simp
  also have "\<dots> = m mod 32" by (simp add: take_bit_eq_mod)
  finally have a: "ToInt32 m AND 31 = m mod 32" .
  have "ToInt32 (m mod 32) = m mod 32" by (intro ToInt32_nonneg) simp_all
  then show ?thesis by (simp add: js_and_def 31 a)
qed

lemma truncate_num_quotient:
  assumes "0 \<le> n"
  shows "truncate_num (of_int n / 32 ^ k) = n div 32 ^ k"
proof -
  have "(of_int n :: rat) / 32 ^ k = of_int n / of_int (32 ^ k)" by simp
  then have "\<lfloor>(of_int n :: rat) / 32 ^ k\<rfloor> = n div 32 ^ k" by (simp only: floor_divide_of_int_eq)
  moreover have "\<not> (of_int n :: rat) / 32 ^ k < 0" using assms by (simp add: divide_less_0_iff)
  ultimately show ?thesis by (simp add: truncate_num_def)
qed

lemma checksumToArray_loop_digits:
  assumes "0 \<le> n"
  shows "checksumToArray_loop i (of_int n / 32 ^ k) result
         = result @ map (\<lambda>j. n div 32 ^ (k + j) mod 32) [0 ..< i]"
proof (induction i arbitrary: k result)
  case 0
  show ?case by simp
next
  case (Suc i)
  have d: "js_and_num (of_int n / 32 ^ k) 31 = n div 32 ^ k mod 32"
    by (simp add: js_and_num_def truncate_num_quotient [OF assms] js_and_31)
  have q: "(of_int n :: rat) / 32 ^ k / 32 = of_int n / 32 ^ Suc k" by simp
  have m: "map (\<lambda>j. n div 32 ^ (k + j) mod 32) [0 ..< Suc i]
           = (n div 32 ^ k mod 32) # map (\<lambda>j. n div 32 ^ (Suc k + j) mod 32) [0 ..< i]"
    by (simp add: upt_conv_Cons map_Suc_upt [symmetric] del: upt_Suc)
  show ?case
    unfolding checksumToArray_loop.simps d q Suc.IH m by simp
qed

lemma checksumToArray_digits:
  assumes "0 \<le> n"
  shows "checksumToArray (of_int n) = rev (map (\<lambda>j. n div 32 ^ j mod 32) [0 ..< 8])"
  using checksumToArray_loop_digits [OF assms, of 8 0 "[]"] by (simp add: checksumToArray_def)

lemma checksumToArray_length: "0 \<le> n \<Longrightarrow> length (checksumToArray (of_int n)) = 8"
  by (simp add: checksumToArray_digits)

lemma checksumToArray_range:
  "0 \<le> n \<Longrightarrow> d \<in> set (checksumToArray (of_int n)) \<Longrightarrow> 0 \<le> d \<and> d < 32"
  by (auto simp add: checksumToArray_digits simp del: upt_Suc)

lemma base32_digits_sum:
  fixes n :: int
  shows "(\<Sum>j<m. (n div 32 ^ j mod 32) * 32 ^ j) = n mod 32 ^ m"
proof (induction m)
  case 0
  show ?case by simp
next
  case (Suc m)
  have "n mod 32 ^ Suc m = n mod (32 ^ m * 32)" by (simp add: mult.commute)
  also have "\<dots> = 32 ^ m * (n div 32 ^ m mod 32) + n mod 32 ^ m"
    by (rule zmod_zmult2_eq) simp
  finally show ?case using Suc.IH by (simp add: mult.commute)
qed

text \<open>
  C6. For every integer \<open>n\<close> with \<open>0 \<le> n < 2^40\<close>, checksumToArray returns exactly 8
  values, each in 0..31, which are the base-32 digits of \<open>n\<close>, most significant first:
  the sum of \<open>result[k] * 32^(7-k)\<close> is \<open>n\<close>. The division \<open>checksum /= 32\<close> is not an
  integer division; \<open>& 31\<close> truncates its operand.
\<close>

theorem checksumToArray_base32:
  assumes "0 \<le> n" "n < 2 ^ 40"
  shows "length (checksumToArray (of_int n)) = 8
         \<and> (\<forall>d\<in>set (checksumToArray (of_int n)). 0 \<le> d \<and> d < 32)
         \<and> (\<Sum>k<8. checksumToArray (of_int n) ! k * 32 ^ (7 - k)) = n"
proof -
  define f where "f j = n div 32 ^ j mod 32" for j
  have l: "checksumToArray (of_int n) = [f 7, f 6, f 5, f 4, f 3, f 2, f 1, f 0]"
    unfolding checksumToArray_digits [OF assms(1)] f_def [symmetric]
    by (simp add: eval_nat_numeral)
  have "n mod 32 ^ 8 = n" using assms by (intro mod_pos_pos_trivial) simp_all
  then have "(\<Sum>j<8. f j * 32 ^ j) = n"
    using base32_digits_sum [of n 8] by (simp only: f_def)
  then have s: "(\<Sum>k<8. [f 7, f 6, f 5, f 4, f 3, f 2, f 1, f 0] ! k * 32 ^ (7 - k)) = n"
    by (simp add: eval_nat_numeral)
  have r: "\<forall>d\<in>set (checksumToArray (of_int n)). 0 \<le> d \<and> d < 32"
    using checksumToArray_range [OF assms(1)] by blast
  show ?thesis using r s by (simp add: l)
qed

theorem checksumToArray_base32_witness:
  "checksumToArray (of_int 1099511627775) = [31, 31, 31, 31, 31, 31, 31, 31]
   \<and> (\<Sum>k<8. checksumToArray (of_int 1099511627775) ! k * 32 ^ (7 - k)) = 1099511627775"
proof -
  have c: "checksumToArray (of_int 1099511627775) = [31, 31, 31, 31, 31, 31, 31, 31]" by code_simp
  show ?thesis using checksumToArray_base32 [of 1099511627775] c by simp
qed

section \<open>Hexadecimal text and the key bytes that are repacked\<close>

lemma lit_02: "lit ''02'' = [48, 50]" and lit_03: "lit ''03'' = [48, 51]"
  by (simp_all add: lit_def)

lemma unat_hexDigit: "n < 16 \<Longrightarrow> unat (hexDigit n) = (if n < 10 then 48 + n else 87 + n)"
  unfolding hexDigit_def by (simp add: unat_of_nat)

lemma hexValue_hexDigit: "n < 16 \<Longrightarrow> hexValue (hexDigit n) = Some n"
  by (simp add: hexValue_def unat_hexDigit Let_def)

lemma hexDigit_eq_iff:
  assumes "n < 16" "m < 16"
  shows "hexDigit n = hexDigit m \<longleftrightarrow> n = m"
proof
  assume "hexDigit n = hexDigit m"
  then have "unat (hexDigit n) = unat (hexDigit m)" by simp
  then show "n = m" using assms by (simp add: unat_hexDigit split: if_splits)
qed simp

lemma hexDigit_0: "hexDigit 0 = 48" and hexDigit_2: "hexDigit 2 = 50" and hexDigit_3: "hexDigit 3 = 51"
  by (simp_all add: hexDigit_def)

lemma byte_nibbles: "unat (b :: u8) div 16 < 16" "unat b mod 16 < 16"
proof -
  have "unat b < 256" using unsigned_less [of b] by simp
  then show "unat (b :: u8) div 16 < 16" by simp
  show "unat b mod 16 < 16" by simp
qed

lemma Buffer_toString_hex_Cons:
  "Buffer_toString_hex (b # bs)
   = hexDigit (unat b div 16) # hexDigit (unat b mod 16) # Buffer_toString_hex bs"
  by (simp add: Buffer_toString_hex_def)

lemma byte_of_nibbles: "(of_nat (unat b div 16 * 16 + unat b mod 16) :: u8) = b"
proof -
  have "unat b div 16 * 16 + unat b mod 16 = unat b" by (rule div_mult_mod_eq)
  then show ?thesis by (simp only: of_nat_unat ucast_id)
qed

lemma Buffer_from_hex_toString: "Buffer_from_hex (Buffer_toString_hex bs) = bs"
proof (induction bs)
  case Nil
  show ?case by (simp add: Buffer_toString_hex_def)
next
  case (Cons b bs)
  show ?case
    unfolding Buffer_toString_hex_Cons Buffer_from_hex.simps
      hexValue_hexDigit [OF byte_nibbles(1)] hexValue_hexDigit [OF byte_nibbles(2)]
    by (simp only: Cons.IH byte_of_nibbles prod.case option.case)
qed

lemma startsWith_hex_02:
  "startsWith (Buffer_toString_hex (b # bs)) (lit ''02'') \<longleftrightarrow> b = 2"
proof -
  have n: "unat b div 16 = 0 \<and> unat b mod 16 = 2 \<longleftrightarrow> unat b = 2" by presburger
  have u: "unat b = 2 \<longleftrightarrow> b = 2" by (simp add: word_unat_eq_iff [of b 2])
  have "startsWith (Buffer_toString_hex (b # bs)) (lit ''02'')
        \<longleftrightarrow> hexDigit (unat b div 16) = hexDigit 0 \<and> hexDigit (unat b mod 16) = hexDigit 2"
    by (simp add: startsWith_def Buffer_toString_hex_Cons lit_02 hexDigit_0 hexDigit_2)
  also have "\<dots> \<longleftrightarrow> unat b div 16 = 0 \<and> unat b mod 16 = 2"
    by (simp add: hexDigit_eq_iff byte_nibbles)
  finally show ?thesis using n u by simp
qed


lemma startsWith_hex_03:
  "startsWith (Buffer_toString_hex (b # bs)) (lit ''03'') \<longleftrightarrow> b = 3"
proof -
  have n: "unat b div 16 = 0 \<and> unat b mod 16 = 3 \<longleftrightarrow> unat b = 3" by presburger
  have u: "unat b = 3 \<longleftrightarrow> b = 3" by (simp add: word_unat_eq_iff [of b 3])
  have "startsWith (Buffer_toString_hex (b # bs)) (lit ''03'')
        \<longleftrightarrow> hexDigit (unat b div 16) = hexDigit 0 \<and> hexDigit (unat b mod 16) = hexDigit 3"
    by (simp add: startsWith_def Buffer_toString_hex_Cons lit_03 hexDigit_0 hexDigit_3)
  also have "\<dots> \<longleftrightarrow> unat b div 16 = 0 \<and> unat b mod 16 = 3"
    by (simp add: hexDigit_eq_iff byte_nibbles)
  finally show ?thesis using n u by simp
qed

lemma drop_2_hex: "drop 2 (Buffer_toString_hex (b # bs)) = Buffer_toString_hex bs"
  by (simp add: Buffer_toString_hex_Cons)

text \<open>The bytes that kaspaEncodePubKeyAddress repacks after the version byte.\<close>

lemma cleanPubKey_bytes:
  "Buffer_from_hex
     (if startsWith (Buffer_toString_hex (b # bs)) (lit ''02'')
         \<or> startsWith (Buffer_toString_hex (b # bs)) (lit ''03'')
      then drop 2 (Buffer_toString_hex (b # bs)) else Buffer_toString_hex (b # bs))
   = (if b = 2 \<or> b = 3 then bs else b # bs)"
  by (simp only: startsWith_hex_02 startsWith_hex_03 drop_2_hex Buffer_from_hex_toString if_distrib [of Buffer_from_hex])

section \<open>The shape of an address\<close>

lemma length_Uint8Array_of [simp]: "length (Uint8Array_of xs) = length xs"
  by (simp add: Uint8Array_of_def)

lemma length_prefixToArray [simp]: "length (prefixToArray p) = length p"
  by (simp add: prefixToArray_def)

lemma length_checksum_polymod [simp]: "length (checksumToArray (of_int (polymod xs))) = 8"
  using polymod_bounds [of xs] by (simp add: checksumToArray_length)

lemma base32Encode_append: "base32Encode (xs @ ys) = base32Encode xs @ base32Encode ys"
  by (simp add: base32Encode_def)

lemma kaspaEncode_shape:
  assumes key: "Buffer_from_hex
       (if startsWith (Buffer_toString_hex pubKey) (lit ''02'')
           \<or> startsWith (Buffer_toString_hex pubKey) (lit ''03'')
        then drop 2 (Buffer_toString_hex pubKey) else Buffer_toString_hex pubKey) = key"
    and cb: "convertBits (numbers (Uint8Array_of ([0] @ numbers key))) 8 5 True = Some (Some payloadData)"
  shows "kaspaEncodePubKeyAddress pubKey prefix
         = Some (Inr (lit ''kaspa:'' @ base32Encode payloadData
                        @ base32Encode (address_checksum prefix payloadData)))"
  unfolding kaspaEncodePubKeyAddress_def Let_def key cb
  by (simp add: Uint8Array_set_def Uint8Array_new_def try_bind_def base32Encode_append
      address_checksum_def)

lemma numbers_range: "\<forall>x\<in>set (numbers bs). 0 \<le> x \<and> x < 256"
proof
  fix x assume "x \<in> set (numbers bs)"
  then obtain b :: u8 where "x = uint b" by (auto simp: numbers_def)
  then show "0 \<le> x \<and> x < 256" using uint_bounded [of b] by simp
qed

lemma length_numbers [simp]: "length (numbers bs) = length bs"
  by (simp add: numbers_def)

lemma unat_symbol:
  assumes "0 \<le> d" "d < 32"
  shows "unat (word_of_int d :: u8) = nat d"
proof -
  have "take_bit 8 d = d" using assms by (simp add: take_bit_int_eq_self)
  then show ?thesis by (simp add: unat_eq_nat_uint uint_word_of_int_eq)
qed

lemma Uint8Array_of_symbols:
  assumes "\<forall>d\<in>set out. 0 \<le> d \<and> d < 32"
  shows "\<forall>b\<in>set (Uint8Array_of out). unat b < 32"
proof
  fix b assume "b \<in> set (Uint8Array_of out)"
  then obtain d where d: "d \<in> set out" "b = word_of_int d" by (auto simp: Uint8Array_of_def)
  then have "0 \<le> d" "d < 32" using assms by simp_all
  then show "unat b < 32" using d(2) by (simp add: unat_symbol)
qed

lemma base32Encode_symbols:
  assumes "\<forall>b\<in>set bs. unat b < 32"
  shows "length (base32Encode bs) = length bs \<and> set (base32Encode bs) \<subseteq> set (lit CHARSET)"
  using assms
proof (induction bs)
  case Nil
  show ?case by (simp add: base32Encode_def)
next
  case (Cons b bs)
  have l: "length CHARSET = 32" by (simp add: CHARSET_def)
  have b: "unat b < 32" using Cons.prems by simp
  then have "of_char (CHARSET ! unat b) \<in> set (lit CHARSET)"
    unfolding lit_def using l by simp
  moreover have "base32Encode (b # bs) = of_char (CHARSET ! unat b) # base32Encode bs"
    using b l by (simp add: base32Encode_def)
  ultimately show ?case using Cons by simp
qed

lemma address_checksum_symbols:
  "length (address_checksum prefix payloadData) = 8
   \<and> (\<forall>b\<in>set (address_checksum prefix payloadData). unat b < 32)"
proof -
  define n where "n = polymod (numbers (Uint8Array_of (prefixToArray prefix @ [0]) @ payloadData
          @ Uint8Array_of [0, 0, 0, 0, 0, 0, 0, 0]))"
  have n: "0 \<le> n" using polymod_bounds by (simp add: n_def)
  have "\<forall>d\<in>set (checksumToArray (of_int n)). 0 \<le> d \<and> d < 32"
    using checksumToArray_range [OF n] by blast
  then have "\<forall>b\<in>set (Uint8Array_of (checksumToArray (of_int n))). unat b < 32"
    by (rule Uint8Array_of_symbols)
  then show ?thesis
    unfolding address_checksum_def n_def [symmetric] using n by (simp add: checksumToArray_length)
qed

text \<open>The address of any non-empty key, for every prefix at once.\<close>

lemma kaspaEncode_general:
  fixes b :: u8 and bs :: "u8 list"
  defines "key \<equiv> (if b = 2 \<or> b = 3 then bs else b # bs)"
  shows "\<exists>payloadData p. p < 5 \<and> 5 * length payloadData = 8 * (length key + 1) + p
           \<and> (\<forall>x\<in>set payloadData. unat x < 32)
           \<and> convertBits (0 # numbers key) 8 5 True = Some (Some payloadData)
           \<and> (\<forall>prefix. kaspaEncodePubKeyAddress (b # bs) prefix
                 = Some (Inr (lit ''kaspa:'' @ base32Encode payloadData
                                @ base32Encode (address_checksum prefix payloadData))))"
proof -
  have r: "\<forall>x\<in>set (0 # numbers key). 0 \<le> x \<and> x < 256" using numbers_range [of key] by simp
  then have n: "numbers (Uint8Array_of ([0] @ numbers key)) = 0 # numbers key"
    using numbers_Uint8Array_of [of "0 # numbers key"] by simp
  from pad_8_5 [OF r] obtain out p where e:
    "convertBits (0 # numbers key) 8 5 True = Some (Some (Uint8Array_of out))"
    "p < 5" "5 * length out = 8 * length (0 # numbers key) + p"
    "\<forall>d\<in>set out. 0 \<le> d \<and> d < 32"
    by blast
  have k: "Buffer_from_hex
       (if startsWith (Buffer_toString_hex (b # bs)) (lit ''02'')
           \<or> startsWith (Buffer_toString_hex (b # bs)) (lit ''03'')
        then drop 2 (Buffer_toString_hex (b # bs)) else Buffer_toString_hex (b # bs)) = key"
    unfolding key_def by (rule cleanPubKey_bytes)
  have c: "convertBits (numbers (Uint8Array_of ([0] @ numbers key))) 8 5 True
           = Some (Some (Uint8Array_of out))"
    unfolding n by (rule e(1))
  have "\<forall>prefix. kaspaEncodePubKeyAddress (b # bs) prefix
          = Some (Inr (lit ''kaspa:'' @ base32Encode (Uint8Array_of out)
                         @ base32Encode (address_checksum prefix (Uint8Array_of out))))"
    using kaspaEncode_shape [OF k c] by blast
  moreover have "5 * length (Uint8Array_of out) = 8 * (length key + 1) + p" using e(3) by simp
  moreover have "\<forall>x\<in>set (Uint8Array_of out). unat x < 32" using e(4) by (rule Uint8Array_of_symbols)
  ultimately show ?thesis using e(1,2) by blast
qed

section \<open>Claims C1, C2 and C10: the addresses of 33-byte keys\<close>

lemma symbols_33: "p < 5 \<Longrightarrow> 5 * l = 8 * (32 + 1) + p \<Longrightarrow> l = (53::nat)"
  by presburger

lemma symbols_34: "p < 5 \<Longrightarrow> 5 * l = 8 * (33 + 1) + p \<Longrightarrow> l = (55::nat)"
  by presburger

lemma length_lit [simp]: "length (lit s) = length s"
  by (simp add: lit_def)

lemma address_parts:
  assumes "\<forall>x\<in>set payloadData. unat x < 32"
    and "addr = lit ''kaspa:'' @ base32Encode payloadData @ base32Encode (address_checksum prefix payloadData)"
  shows "length (base32Encode payloadData) = length payloadData"
    and "length (base32Encode (address_checksum prefix payloadData)) = 8"
    and "length addr = 6 + length payloadData + 8"
    and "take 6 addr = lit ''kaspa:''"
    and "take (6 + length payloadData) addr = lit ''kaspa:'' @ base32Encode payloadData"
    and "set (drop 6 addr) \<subseteq> set (lit CHARSET)"
proof -
  have p: "length (base32Encode payloadData) = length payloadData"
    "set (base32Encode payloadData) \<subseteq> set (lit CHARSET)"
    using base32Encode_symbols [OF assms(1)] by simp_all
  have c: "length (base32Encode (address_checksum prefix payloadData)) = 8"
    "set (base32Encode (address_checksum prefix payloadData)) \<subseteq> set (lit CHARSET)"
    using base32Encode_symbols [of "address_checksum prefix payloadData"]
      address_checksum_symbols [of prefix payloadData] by simp_all
  show "length (base32Encode payloadData) = length payloadData" by (rule p(1))
  show "length (base32Encode (address_checksum prefix payloadData)) = 8" by (rule c(1))
  show "length addr = 6 + length payloadData + 8" by (simp add: assms(2) p(1) c(1))
  show "take 6 addr = lit ''kaspa:''" by (simp add: assms(2))
  show "take (6 + length payloadData) addr = lit ''kaspa:'' @ base32Encode payloadData"
    by (simp add: assms(2) p(1))
  show "set (drop 6 addr) \<subseteq> set (lit CHARSET)" using p(2) c(2) by (simp add: assms(2))
qed

text \<open>
  C1. For every 33-byte key whose first byte is 0x02 or 0x03 and every prefix string,
  kaspaEncodePubKeyAddress returns (the convertBits-failure branch is not taken) a string
  of exactly 67 characters: 'kaspa:', then 53 payload symbols and 8 checksum symbols,
  all 61 of them characters of the alphabet.
\<close>

theorem kaspaEncodePubKeyAddress_format:
  assumes "length pubKey = 33" "pubKey ! 0 = 2 \<or> pubKey ! 0 = 3"
  shows "\<exists>payloadData addr.
           convertBits (0 # numbers (tl pubKey)) 8 5 True = Some (Some payloadData)
         \<and> length payloadData = 53
         \<and> kaspaEncodePubKeyAddress pubKey prefix = Some (Inr addr)
         \<and> addr = lit ''kaspa:'' @ base32Encode payloadData
                    @ base32Encode (address_checksum prefix payloadData)
         \<and> length (base32Encode payloadData) = 53
         \<and> length (base32Encode (address_checksum prefix payloadData)) = 8
         \<and> length addr = 67
         \<and> take 6 addr = lit ''kaspa:''
         \<and> set (drop 6 addr) \<subseteq> set (lit CHARSET)"
proof -
  from assms(1) obtain b bs where pk: "pubKey = b # bs" and bs: "length bs = 32"
    by (cases pubKey) simp_all
  have b: "b = 2 \<or> b = 3" using assms(2) pk by simp
  from kaspaEncode_general [of b bs] b bs
  obtain payloadData p where g:
    "p < 5" "5 * length payloadData = 8 * (32 + 1) + p"
    "\<forall>x\<in>set payloadData. unat x < 32"
    "convertBits (0 # numbers bs) 8 5 True = Some (Some payloadData)"
    "\<forall>prefix. kaspaEncodePubKeyAddress (b # bs) prefix
       = Some (Inr (lit ''kaspa:'' @ base32Encode payloadData
                      @ base32Encode (address_checksum prefix payloadData)))"
    by auto
  define addr where "addr = lit ''kaspa:'' @ base32Encode payloadData
                    @ base32Encode (address_checksum prefix payloadData)"
  have l: "length payloadData = 53" using g(1,2) by (rule symbols_33)
  note parts = address_parts [OF g(3) addr_def]
  have "convertBits (0 # numbers (tl pubKey)) 8 5 True = Some (Some payloadData)"
    using g(4) pk by simp
  moreover have "kaspaEncodePubKeyAddress pubKey prefix = Some (Inr addr)"
    using g(5) pk addr_def by simp
  moreover have "length addr = 67" using parts(3) l by simp
  moreover have "length (base32Encode payloadData) = 53" using parts(1) l by simp
  ultimately show ?thesis using l addr_def parts(2,4,6) by blast
qed

theorem kaspaEncodePubKeyAddress_format_witness:
  "map_option (map_sum id length) (kaspaEncodePubKeyAddress (2 # replicate 32 7) (lit ''kaspa''))
   = Some (Inr 67)"
proof -
  have h: "length (2 # replicate 32 (7 :: u8)) = 33"
    "(2 # replicate 32 (7 :: u8)) ! 0 = 2 \<or> (2 # replicate 32 (7 :: u8)) ! 0 = 3"
    by simp_all
  from kaspaEncodePubKeyAddress_format [OF h, of "lit ''kaspa''"] obtain addr where
    "kaspaEncodePubKeyAddress (2 # replicate 32 7) (lit ''kaspa'') = Some (Inr addr)"
    "length addr = 67"
    by blast
  then show ?thesis by simp
qed

text \<open>
  C2. For every 33-byte key whose first byte is 0x02 or 0x03 and every two prefix strings,
  both addresses begin with the literal 'kaspa:' and agree on the 53 payload symbols
  (their first 59 characters); the prefix enters only the 8 checksum symbols that follow.
\<close>

theorem kaspaEncodePubKeyAddress_prefix:
  assumes "length pubKey = 33" "pubKey ! 0 = 2 \<or> pubKey ! 0 = 3"
  shows "\<exists>payloadData a1 a2.
           kaspaEncodePubKeyAddress pubKey p1 = Some (Inr a1)
         \<and> kaspaEncodePubKeyAddress pubKey p2 = Some (Inr a2)
         \<and> a1 = lit ''kaspa:'' @ base32Encode payloadData @ base32Encode (address_checksum p1 payloadData)
         \<and> a2 = lit ''kaspa:'' @ base32Encode payloadData @ base32Encode (address_checksum p2 payloadData)
         \<and> length (base32Encode payloadData) = 53
         \<and> take 6 a1 = lit ''kaspa:'' \<and> take 6 a2 = lit ''kaspa:''
         \<and> take 59 a1 = take 59 a2
         \<and> length a1 = 67 \<and> length a2 = 67"
proof -
  from assms(1) obtain b bs where pk: "pubKey = b # bs" and bs: "length bs = 32"
    by (cases pubKey) simp_all
  have b: "b = 2 \<or> b = 3" using assms(2) pk by simp
  from kaspaEncode_general [of b bs] b bs
  obtain payloadData p where g:
    "p < 5" "5 * length payloadData = 8 * (32 + 1) + p"
    "\<forall>x\<in>set payloadData. unat x < 32"
    "\<forall>prefix. kaspaEncodePubKeyAddress (b # bs) prefix
       = Some (Inr (lit ''kaspa:'' @ base32Encode payloadData
                      @ base32Encode (address_checksum prefix payloadData)))"
    by auto
  define a1 where "a1 = lit ''kaspa:'' @ base32Encode payloadData
                    @ base32Encode (address_checksum p1 payloadData)"
  define a2 where "a2 = lit ''kaspa:'' @ base32Encode payloadData
                    @ base32Encode (address_checksum p2 payloadData)"
  have l: "length payloadData = 53" using g(1,2) by (rule symbols_33)
  note parts1 = address_parts [OF g(3) a1_def]
  note parts2 = address_parts [OF g(3) a2_def]
  have "take 59 a1 = lit ''kaspa:'' @ base32Encode payloadData" using parts1(5) l by simp
  moreover have "take 59 a2 = lit ''kaspa:'' @ base32Encode payloadData" using parts2(5) l by simp
  ultimately have t: "take 59 a1 = take 59 a2" by simp
  have "kaspaEncodePubKeyAddress pubKey p1 = Some (Inr a1)" using g(4) pk a1_def by simp
  moreover have "kaspaEncodePubKeyAddress pubKey p2 = Some (Inr a2)" using g(4) pk a2_def by simp
  moreover have "length a1 = 67" "length a2 = 67" using parts1(3) parts2(3) l by simp_all
  moreover have "length (base32Encode payloadData) = 53" using parts1(1) l by simp
  ultimately show ?thesis using a1_def a2_def parts1(4) parts2(4) t by blast
qed

theorem kaspaEncodePubKeyAddress_prefix_witness:
  "map_option (map_sum id (take 59)) (kaspaEncodePubKeyAddress (2 # replicate 32 7) (lit ''kaspa''))
   = map_option (map_sum id (take 59)) (kaspaEncodePubKeyAddress (2 # replicate 32 7) (lit ''kaspatest''))
   \<and> map_option (map_sum id (take 6)) (kaspaEncodePubKeyAddress (2 # replicate 32 7) (lit ''kaspatest''))
   = Some (Inr (lit ''kaspa:''))"
proof -
  have h: "length (2 # replicate 32 (7 :: u8)) = 33"
    "(2 # replicate 32 (7 :: u8)) ! 0 = 2 \<or> (2 # replicate 32 (7 :: u8)) ! 0 = 3"
    by simp_all
  from kaspaEncodePubKeyAddress_prefix [OF h, of "lit ''kaspa''" "lit ''kaspatest''"]
  obtain a1 a2 where
    "kaspaEncodePubKeyAddress (2 # replicate 32 7) (lit ''kaspa'') = Some (Inr a1)"
    "kaspaEncodePubKeyAddress (2 # replicate 32 7) (lit ''kaspatest'') = Some (Inr a2)"
    "take 59 a1 = take 59 a2" "take 6 a2 = lit ''kaspa:''"
    by blast
  then show ?thesis by simp
qed

text \<open>
  C10. For every 33-byte key whose first byte is neither 0x02 nor 0x03,
  kaspaEncodePubKeyAddress keeps the first byte: it repacks the version byte and all 33
  key bytes into 55 payload symbols and returns 'kaspa:' followed by 63 characters of the
  alphabet, 69 characters in all.
\<close>

theorem kaspaEncodePubKeyAddress_unstripped:
  assumes "length pubKey = 33" "pubKey ! 0 \<noteq> 2" "pubKey ! 0 \<noteq> 3"
  shows "\<exists>payloadData addr.
           convertBits (0 # numbers pubKey) 8 5 True = Some (Some payloadData)
         \<and> length payloadData = 55
         \<and> kaspaEncodePubKeyAddress pubKey prefix = Some (Inr addr)
         \<and> addr = lit ''kaspa:'' @ base32Encode payloadData
                    @ base32Encode (address_checksum prefix payloadData)
         \<and> length (base32Encode payloadData) = 55
         \<and> length (base32Encode (address_checksum prefix payloadData)) = 8
         \<and> length addr = 69
         \<and> take 6 addr = lit ''kaspa:''
         \<and> set (drop 6 addr) \<subseteq> set (lit CHARSET)"
proof -
  from assms(1) obtain b bs where pk: "pubKey = b # bs" and bs: "length bs = 32"
    by (cases pubKey) simp_all
  have b: "\<not> (b = 2 \<or> b = 3)" using assms(2,3) pk by simp
  from kaspaEncode_general [of b bs] b bs
  obtain payloadData p where g:
    "p < 5" "5 * length payloadData = 8 * (33 + 1) + p"
    "\<forall>x\<in>set payloadData. unat x < 32"
    "convertBits (0 # numbers (b # bs)) 8 5 True = Some (Some payloadData)"
    "\<forall>prefix. kaspaEncodePubKeyAddress (b # bs) prefix
       = Some (Inr (lit ''kaspa:'' @ base32Encode payloadData
                      @ base32Encode (address_checksum prefix payloadData)))"
    by auto
  define addr where "addr = lit ''kaspa:'' @ base32Encode payloadData
                    @ base32Encode (address_checksum prefix payloadData)"
  have l: "length payloadData = 55" using g(1,2) by (rule symbols_34)
  note parts = address_parts [OF g(3) addr_def]
  have "convertBits (0 # numbers pubKey) 8 5 True = Some (Some payloadData)"
    using g(4) pk by simp
  moreover have "kaspaEncodePubKeyAddress pubKey prefix = Some (Inr addr)"
    using g(5) pk addr_def by simp
  moreover have "length addr = 69" using parts(3) l by simp
  moreover have "length (base32Encode payloadData) = 55" using parts(1) l by simp
  ultimately show ?thesis using l addr_def parts(2,4,6) by blast
qed

theorem kaspaEncodePubKeyAddress_unstripped_witness:
  "map_option (map_sum id length) (kaspaEncodePubKeyAddress (4 # replicate 32 7) (lit ''kaspa''))
   = Some (Inr 69)"
proof -
  have h: "length (4 # replicate 32 (7 :: u8)) = 33"
    "(4 # replicate 32 (7 :: u8)) ! 0 \<noteq> 2" "(4 # replicate 32 (7 :: u8)) ! 0 \<noteq> 3"
    by simp_all
  from kaspaEncodePubKeyAddress_unstripped [OF h, of "lit ''kaspa''"] obtain addr where
    "kaspaEncodePubKeyAddress (4 # replicate 32 7) (lit ''kaspa'') = Some (Inr addr)"
    "length addr = 69"
    by blast
  then show ?thesis by simp
qed

section \<open>Claims C9, C7 and C3: the conversion of extended keys\<close>

lemma every_equal_KASPA:
  assumes "length vb = 4"
  shows "every_equal vb KASPA_MAINNET_PUBLIC_BYTES \<longleftrightarrow> vb = Uint8Array_of KASPA_MAINNET_PUBLIC_BYTES"
proof -
  from assms obtain a b c d where vb: "vb = [a, b, c, d]"
    by (cases vb; cases "tl vb"; cases "tl (tl vb)"; cases "tl (tl (tl vb))") auto
  have u: "\<And>w :: u8. uint w = 0x03 \<longleftrightarrow> w = 0x03" "\<And>w :: u8. uint w = 0x8f \<longleftrightarrow> w = 0x8f"
    "\<And>w :: u8. uint w = 0x33 \<longleftrightarrow> w = 0x33" "\<And>w :: u8. uint w = 0x2e \<longleftrightarrow> w = 0x2e"
    by (simp_all add: word_uint_eq_iff)
  show ?thesis
    unfolding vb every_equal_def KASPA_MAINNET_PUBLIC_BYTES_def Uint8Array_of_def
    by (simp add: u upt_rec [of 0] upt_rec [of 1] upt_rec [of 2] upt_rec [of 3] upt_rec [of 4])
qed

lemma length_slice: "b \<le> length xs \<Longrightarrow> length (Uint8Array_slice xs a b) = b - a"
  by (simp add: Uint8Array_slice_def)

lemma convert_wrong_length:
  assumes "base58checkDecode ext kpub = Inr decoded" "length decoded \<noteq> 78"
  shows "convertKaspiumKPUBToStandard ext kpub = Inl (FailedToConvert (InvalidKPUBLength (length decoded)))"
  using assms by (simp add: convertKaspiumKPUBToStandard_def try_bind_def)

lemma convert_wrong_version:
  assumes "base58checkDecode ext kpub = Inr decoded" "length decoded = 78"
    and "Uint8Array_slice decoded 0 4 \<noteq> Uint8Array_of KASPA_MAINNET_PUBLIC_BYTES"
  shows "convertKaspiumKPUBToStandard ext kpub
         = Inl (FailedToConvert (NotKaspiumKPUB (Uint8Array_slice decoded 0 4)))"
proof -
  have "length (Uint8Array_slice decoded 0 4) = 4" using assms(2) by (simp add: length_slice)
  then have "\<not> every_equal (Uint8Array_slice decoded 0 4) KASPA_MAINNET_PUBLIC_BYTES"
    using assms(3) by (simp add: every_equal_KASPA)
  then show ?thesis
    using assms(1,2)
    by (simp add: convertKaspiumKPUBToStandard_def try_bind_def extractComponents_def Let_def)
qed

lemma drop_split: "drop a xs = Uint8Array_slice xs a (a + n) @ drop (a + n) xs"
proof -
  have "drop (a + n) xs = drop n (drop a xs)" by (simp add: add.commute)
  then show ?thesis
    unfolding Uint8Array_slice_def by (simp only: add_diff_cancel_left' append_take_drop_id)
qed

lemma fields_concat:
  assumes "length d = 78"
  shows "[d ! 4] @ Uint8Array_slice d 5 9 @ Uint8Array_slice d 9 13 @ Uint8Array_slice d 13 45 @ Uint8Array_slice d 45 78 = drop 4 d"
proof -
  have "drop 4 d = d ! 4 # drop 5 d"
    using assms Cons_nth_drop_Suc [of 4 d] by simp
  also have "drop 5 d = Uint8Array_slice d 5 9 @ drop 9 d" using drop_split [of 5 d 4] by simp
  also have "drop 9 d = Uint8Array_slice d 9 13 @ drop 13 d" using drop_split [of 9 d 4] by simp
  also have "drop 13 d = Uint8Array_slice d 13 45 @ drop 45 d" using drop_split [of 13 d 32] by simp
  also have "drop 45 d = Uint8Array_slice d 45 78" using assms by (simp add: Uint8Array_slice_def)
  finally show ?thesis by simp
qed

lemma build_concat:
  assumes "length (fingerprint c) = 4" "length (childNumber c) = 4"
    "length (chainCode c) = 32" "length (publicKey c) = 33"
  shows "buildStandardExtendedKey c
         = Inr (Uint8Array_of BITCOIN_MAINNET_PUBLIC_BYTES @ [depth c] @ fingerprint c
                  @ childNumber c @ chainCode c @ publicKey c)"
  unfolding buildStandardExtendedKey_def Let_def
  using assms
  by (simp add: Uint8Array_set_def Uint8Array_new_def try_bind_def Uint8Array_of_def
      BITCOIN_MAINNET_PUBLIC_BYTES_def)

lemma build_frame:
  assumes "length d = 78"
  shows "buildStandardExtendedKey (extractComponents d)
         = Inr (Uint8Array_of BITCOIN_MAINNET_PUBLIC_BYTES @ drop 4 d)"
proof -
  have "buildStandardExtendedKey (extractComponents d)
        = Inr (Uint8Array_of BITCOIN_MAINNET_PUBLIC_BYTES
                 @ [d ! 4] @ Uint8Array_slice d 5 9 @ Uint8Array_slice d 9 13 @ Uint8Array_slice d 13 45 @ Uint8Array_slice d 45 78)"
    using assms build_concat [of "extractComponents d"]
    by (simp add: extractComponents_def length_slice)
  then show ?thesis by (simp only: fields_concat [OF assms])
qed

lemma extract_frame:
  assumes "length d = 78" "length v = 4"
  shows "extractComponents (v @ drop 4 d) = (extractComponents d)\<lparr>versionBytes := v\<rparr>"
  using assms by (simp add: extractComponents_def Uint8Array_slice_def nth_append)

lemma length_BITCOIN: "length BITCOIN_MAINNET_PUBLIC_BYTES = 4"
  by (simp add: BITCOIN_MAINNET_PUBLIC_BYTES_def)

lemma convert_right_version:
  assumes "base58checkDecode ext kpub = Inr decoded" "length decoded = 78"
    and "Uint8Array_slice decoded 0 4 = Uint8Array_of KASPA_MAINNET_PUBLIC_BYTES"
    and "buildStandardExtendedKey (extractComponents decoded) = Inr k"
  shows "convertKaspiumKPUBToStandard ext kpub
         = (case validateConverted ext (base58checkEncode ext k) of
              Inl e \<Rightarrow> Inl (FailedToConvert e)
            | Inr u \<Rightarrow> Inr (base58checkEncode ext k))"
proof -
  have "length (Uint8Array_slice decoded 0 4) = 4" using assms(2) by (simp add: length_slice)
  then have v: "every_equal (versionBytes (extractComponents decoded)) KASPA_MAINNET_PUBLIC_BYTES"
    using assms(3) by (simp add: every_equal_KASPA extractComponents_def)
  have p: "length (publicKey (extractComponents decoded)) = 33"
    using assms(2) by (simp add: extractComponents_def length_slice)
  show ?thesis
    unfolding convertKaspiumKPUBToStandard_def Let_def
    using assms(1,2,4) v p
    by (simp add: try_bind_def split: sum.splits)
qed

text \<open>
  C9. When Base58Check decoding succeeds with a byte sequence whose length is not 78,
  convertKaspiumKPUBToStandard fails with the length error (inside the wrapper that the
  function puts around every failure); no field enters the result.
\<close>

theorem convertKaspiumKPUBToStandard_length:
  assumes "base58checkDecode ext kpub = Inr decoded" "length decoded \<noteq> 78"
  shows "convertKaspiumKPUBToStandard ext kpub
         = Inl (FailedToConvert (InvalidKPUBLength (length decoded)))"
  using assms by (rule convert_wrong_length)

theorem convertKaspiumKPUBToStandard_length_witness:
  "convertKaspiumKPUBToStandard plain_text_externals (replicate 77 7)
   = Inl (FailedToConvert (InvalidKPUBLength 77))"
proof -
  have d: "base58checkDecode plain_text_externals (replicate 77 7) = Inr (replicate 77 7)"
    by (simp add: plain_text_externals_def)
  have l: "length (replicate 77 (7 :: u8)) \<noteq> 78" by simp
  show ?thesis using convertKaspiumKPUBToStandard_length [OF d l] by simp
qed

text \<open>
  C7. For every decoded record of 78 bytes whose version bytes differ from
  \<open>[0x03, 0x8f, 0x33, 0x2e]\<close>, convertKaspiumKPUBToStandard fails with the version error
  and returns no string; the standard tag \<open>[0x04, 0x88, 0xb2, 0x1e]\<close> is such a case.
\<close>

theorem convertKaspiumKPUBToStandard_version:
  assumes "base58checkDecode ext kpub = Inr decoded" "length decoded = 78"
    and "Uint8Array_slice decoded 0 4 \<noteq> Uint8Array_of KASPA_MAINNET_PUBLIC_BYTES"
  shows "convertKaspiumKPUBToStandard ext kpub
         = Inl (FailedToConvert (NotKaspiumKPUB (Uint8Array_slice decoded 0 4)))"
  using assms by (rule convert_wrong_version)

theorem convertKaspiumKPUBToStandard_version_witness:
  "convertKaspiumKPUBToStandard plain_text_externals ([0x04, 0x88, 0xb2, 0x1e] @ replicate 74 7)
   = Inl (FailedToConvert (NotKaspiumKPUB [0x04, 0x88, 0xb2, 0x1e]))"
proof -
  have d: "base58checkDecode plain_text_externals ([0x04, 0x88, 0xb2, 0x1e] @ replicate 74 7)
           = Inr ([0x04, 0x88, 0xb2, 0x1e] @ replicate 74 7)"
    by (simp add: plain_text_externals_def)
  have l: "length ([0x04, 0x88, 0xb2, 0x1e] @ replicate 74 (7 :: u8)) = 78" by simp
  have v: "Uint8Array_slice ([0x04, 0x88, 0xb2, 0x1e] @ replicate 74 (7 :: u8)) 0 4
           \<noteq> Uint8Array_of KASPA_MAINNET_PUBLIC_BYTES"
    by (simp add: Uint8Array_slice_def Uint8Array_of_def KASPA_MAINNET_PUBLIC_BYTES_def)
  show ?thesis
    using convertKaspiumKPUBToStandard_version [OF d l v] by (simp add: Uint8Array_slice_def)
qed

text \<open>
  C3. For every string that Base58Check decodes to 78 bytes with the version bytes
  \<open>[0x03, 0x8f, 0x33, 0x2e]\<close>, the buffer that convertKaspiumKPUBToStandard builds has 78
  bytes, begins with \<open>[0x04, 0x88, 0xb2, 0x1e]\<close> and equals the decoded bytes from byte 4
  on; its depth, fingerprint, child number, chain code and public key are those of the
  original. Whenever the BIP32 parser accepts the Base58Check text of that buffer and
  gives a public key, the function returns that text; it fails exactly when the parser
  raises or gives no public key. When Base58Check decoding inverts encoding on the
  buffer, parsing the returned text again gives the original fields with the new version
  bytes.
\<close>

theorem convertKaspiumKPUBToStandard_frame:
  assumes "base58checkDecode ext kpub = Inr decoded" "length decoded = 78"
    and "Uint8Array_slice decoded 0 4 = Uint8Array_of KASPA_MAINNET_PUBLIC_BYTES"
  shows "\<exists>k. buildStandardExtendedKey (extractComponents decoded) = Inr k
           \<and> length k = 78
           \<and> Uint8Array_slice k 0 4 = Uint8Array_of BITCOIN_MAINNET_PUBLIC_BYTES
           \<and> drop 4 k = drop 4 decoded
           \<and> extractComponents k
               = (extractComponents decoded)\<lparr>versionBytes := Uint8Array_of BITCOIN_MAINNET_PUBLIC_BYTES\<rparr>
           \<and> (convertKaspiumKPUBToStandard ext kpub = Inr (base58checkEncode ext k)
                \<or> (\<exists>e. convertKaspiumKPUBToStandard ext kpub = Inl (FailedToConvert (ConvertedInvalid e))))
           \<and> (\<forall>pk. HDKey_fromExtendedKey ext (base58checkEncode ext k) = Inr (Some pk)
                \<longrightarrow> convertKaspiumKPUBToStandard ext kpub = Inr (base58checkEncode ext k))
           \<and> (HDKey_fromExtendedKey ext (base58checkEncode ext k) = Inr None
                \<longrightarrow> convertKaspiumKPUBToStandard ext kpub
                      = Inl (FailedToConvert (ConvertedInvalid NoPublicKey)))
           \<and> (\<forall>e. HDKey_fromExtendedKey ext (base58checkEncode ext k) = Inl e
                \<longrightarrow> convertKaspiumKPUBToStandard ext kpub
                      = Inl (FailedToConvert (ConvertedInvalid e)))
           \<and> (\<forall>xpub. convertKaspiumKPUBToStandard ext kpub = Inr xpub
                  \<and> base58checkDecode ext (base58checkEncode ext k) = Inr k
                \<longrightarrow> (\<exists>again. base58checkDecode ext xpub = Inr again \<and> length again = 78
                      \<and> extractComponents again
                          = (extractComponents decoded)\<lparr>versionBytes := Uint8Array_of BITCOIN_MAINNET_PUBLIC_BYTES\<rparr>))"
proof -
  define k where "k = Uint8Array_of BITCOIN_MAINNET_PUBLIC_BYTES @ drop 4 decoded"
  have b: "buildStandardExtendedKey (extractComponents decoded) = Inr k"
    unfolding k_def using assms(2) by (rule build_frame)
  have l: "length k = 78" using assms(2) by (simp add: k_def length_BITCOIN)
  have v: "Uint8Array_slice k 0 4 = Uint8Array_of BITCOIN_MAINNET_PUBLIC_BYTES"
    by (simp add: k_def Uint8Array_slice_def length_BITCOIN)
  have r: "drop 4 k = drop 4 decoded" by (simp add: k_def length_BITCOIN)
  have x: "extractComponents k
           = (extractComponents decoded)\<lparr>versionBytes := Uint8Array_of BITCOIN_MAINNET_PUBLIC_BYTES\<rparr>"
    unfolding k_def using assms(2) by (rule extract_frame) (simp add: length_BITCOIN)
  have c: "convertKaspiumKPUBToStandard ext kpub
           = (case validateConverted ext (base58checkEncode ext k) of
                Inl e \<Rightarrow> Inl (FailedToConvert e)
              | Inr u \<Rightarrow> Inr (base58checkEncode ext k))"
    using assms b by (rule convert_right_version)
  have o: "convertKaspiumKPUBToStandard ext kpub = Inr (base58checkEncode ext k)
           \<or> (\<exists>e. convertKaspiumKPUBToStandard ext kpub = Inl (FailedToConvert (ConvertedInvalid e)))"
    unfolding c by (auto simp: validateConverted_def split: sum.splits option.splits)
  have y: "\<forall>pk. HDKey_fromExtendedKey ext (base58checkEncode ext k) = Inr (Some pk)
                \<longrightarrow> convertKaspiumKPUBToStandard ext kpub = Inr (base58checkEncode ext k)"
    unfolding c by (simp add: validateConverted_def)
  have n: "HDKey_fromExtendedKey ext (base58checkEncode ext k) = Inr None
                \<longrightarrow> convertKaspiumKPUBToStandard ext kpub
                      = Inl (FailedToConvert (ConvertedInvalid NoPublicKey))"
    unfolding c by (simp add: validateConverted_def)
  have f: "\<forall>e. HDKey_fromExtendedKey ext (base58checkEncode ext k) = Inl e
                \<longrightarrow> convertKaspiumKPUBToStandard ext kpub
                      = Inl (FailedToConvert (ConvertedInvalid e))"
    unfolding c by (simp add: validateConverted_def)
  have s: "\<forall>xpub. convertKaspiumKPUBToStandard ext kpub = Inr xpub
                  \<and> base58checkDecode ext (base58checkEncode ext k) = Inr k
                \<longrightarrow> (\<exists>again. base58checkDecode ext xpub = Inr again \<and> length again = 78
                      \<and> extractComponents again
                          = (extractComponents decoded)\<lparr>versionBytes := Uint8Array_of BITCOIN_MAINNET_PUBLIC_BYTES\<rparr>)"
  proof (intro allI impI)
    fix xpub
    assume a: "convertKaspiumKPUBToStandard ext kpub = Inr xpub
                  \<and> base58checkDecode ext (base58checkEncode ext k) = Inr k"
    then have "xpub = base58checkEncode ext k" using o by auto
    then show "\<exists>again. base58checkDecode ext xpub = Inr again \<and> length again = 78
                      \<and> extractComponents again
                          = (extractComponents decoded)\<lparr>versionBytes := Uint8Array_of BITCOIN_MAINNET_PUBLIC_BYTES\<rparr>"
      using a l x by auto
  qed
  from b l v r x o y n f s show ?thesis by (intro exI [of _ k] conjI)
qed

text \<open>
  The record of the instance below is laid out as generateKaspiumCompatibleKPUB lays it
  out: depth 3, a zero fingerprint, child number \<open>0x80000000\<close>, a chain code, and as
  public key the compressed generator point of secp256k1.
\<close>

theorem convertKaspiumKPUBToStandard_frame_witness:
  "convertKaspiumKPUBToStandard plain_text_externals
     ([0x03, 0x8f, 0x33, 0x2e, 0x03, 0x00, 0x00, 0x00, 0x00, 0x80, 0x00, 0x00, 0x00] @ replicate 32 0x07
       @ [0x02, 0x79, 0xbe, 0x66, 0x7e, 0xf9, 0xdc, 0xbb, 0xac, 0x55, 0xa0, 0x62, 0x95, 0xce, 0x87, 0x0b, 0x07,
          0x02, 0x9b, 0xfc, 0xdb, 0x2d, 0xce, 0x28, 0xd9, 0x59, 0xf2, 0x81, 0x5b, 0x16, 0xf8, 0x17, 0x98])
   = Inr ([0x04, 0x88, 0xb2, 0x1e, 0x03, 0x00, 0x00, 0x00, 0x00, 0x80, 0x00, 0x00, 0x00] @ replicate 32 0x07
       @ [0x02, 0x79, 0xbe, 0x66, 0x7e, 0xf9, 0xdc, 0xbb, 0xac, 0x55, 0xa0, 0x62, 0x95, 0xce, 0x87, 0x0b, 0x07,
          0x02, 0x9b, 0xfc, 0xdb, 0x2d, 0xce, 0x28, 0xd9, 0x59, 0xf2, 0x81, 0x5b, 0x16, 0xf8, 0x17, 0x98])"
proof -
  define decoded :: "u8 list" where "decoded = [0x03, 0x8f, 0x33, 0x2e, 0x03, 0x00, 0x00, 0x00, 0x00, 0x80, 0x00, 0x00, 0x00] @ replicate 32 0x07
       @ [0x02, 0x79, 0xbe, 0x66, 0x7e, 0xf9, 0xdc, 0xbb, 0xac, 0x55, 0xa0, 0x62, 0x95, 0xce, 0x87, 0x0b, 0x07,
          0x02, 0x9b, 0xfc, 0xdb, 0x2d, 0xce, 0x28, 0xd9, 0x59, 0xf2, 0x81, 0x5b, 0x16, 0xf8, 0x17, 0x98]"
  have d: "base58checkDecode plain_text_externals
             ([0x03, 0x8f, 0x33, 0x2e, 0x03, 0x00, 0x00, 0x00, 0x00, 0x80, 0x00, 0x00, 0x00] @ replicate 32 0x07
       @ [0x02, 0x79, 0xbe, 0x66, 0x7e, 0xf9, 0xdc, 0xbb, 0xac, 0x55, 0xa0, 0x62, 0x95, 0xce, 0x87, 0x0b, 0x07,
          0x02, 0x9b, 0xfc, 0xdb, 0x2d, 0xce, 0x28, 0xd9, 0x59, 0xf2, 0x81, 0x5b, 0x16, 0xf8, 0x17, 0x98])
           = Inr decoded"
    by (simp add: plain_text_externals_def decoded_def)
  have l: "length decoded = 78" by (simp add: decoded_def)
  have v: "Uint8Array_slice decoded 0 4 = Uint8Array_of KASPA_MAINNET_PUBLIC_BYTES"
    by (simp add: decoded_def Uint8Array_slice_def Uint8Array_of_def KASPA_MAINNET_PUBLIC_BYTES_def)
  from convertKaspiumKPUBToStandard_frame [OF d l v] obtain k where k:
    "Uint8Array_slice k 0 4 = Uint8Array_of BITCOIN_MAINNET_PUBLIC_BYTES"
    "drop 4 k = drop 4 decoded"
    "\<forall>pk. HDKey_fromExtendedKey plain_text_externals (base58checkEncode plain_text_externals k) = Inr (Some pk)
       \<longrightarrow> convertKaspiumKPUBToStandard plain_text_externals
             ([0x03, 0x8f, 0x33, 0x2e, 0x03, 0x00, 0x00, 0x00, 0x00, 0x80, 0x00, 0x00, 0x00] @ replicate 32 0x07
       @ [0x02, 0x79, 0xbe, 0x66, 0x7e, 0xf9, 0xdc, 0xbb, 0xac, 0x55, 0xa0, 0x62, 0x95, 0xce, 0x87, 0x0b, 0x07,
          0x02, 0x9b, 0xfc, 0xdb, 0x2d, 0xce, 0x28, 0xd9, 0x59, 0xf2, 0x81, 0x5b, 0x16, 0xf8, 0x17, 0x98])
           = Inr (base58checkEncode plain_text_externals k)"
    by blast
  have "k = take 4 k @ drop 4 k" by simp
  also have "take 4 k = [0x04, 0x88, 0xb2, 0x1e]"
    using k(1) by (simp add: Uint8Array_slice_def Uint8Array_of_def BITCOIN_MAINNET_PUBLIC_BYTES_def)
  also have "drop 4 k = drop 4 decoded" by (rule k(2))
  finally have e: "k = [0x04, 0x88, 0xb2, 0x1e] @ drop 4 decoded" .
  have "HDKey_fromExtendedKey plain_text_externals (base58checkEncode plain_text_externals k)
        = Inr (Some (map ucast (drop 45 (base58checkEncode plain_text_externals k))))"
    by (simp add: plain_text_externals_def)
  with k(3) have "convertKaspiumKPUBToStandard plain_text_externals
             ([0x03, 0x8f, 0x33, 0x2e, 0x03, 0x00, 0x00, 0x00, 0x00, 0x80, 0x00, 0x00, 0x00] @ replicate 32 0x07
       @ [0x02, 0x79, 0xbe, 0x66, 0x7e, 0xf9, 0xdc, 0xbb, 0xac, 0x55, 0xa0, 0x62, 0x95, 0xce, 0x87, 0x0b, 0x07,
          0x02, 0x9b, 0xfc, 0xdb, 0x2d, 0xce, 0x28, 0xd9, 0x59, 0xf2, 0x81, 0x5b, 0x16, 0xf8, 0x17, 0x98])
           = Inr (base58checkEncode plain_text_externals k)"
    by blast
  also have "base58checkEncode plain_text_externals k
             = [0x04, 0x88, 0xb2, 0x1e, 0x03, 0x00, 0x00, 0x00, 0x00, 0x80, 0x00, 0x00, 0x00] @ replicate 32 0x07
       @ [0x02, 0x79, 0xbe, 0x66, 0x7e, 0xf9, 0xdc, 0xbb, 0xac, 0x55, 0xa0, 0x62, 0x95, 0xce, 0x87, 0x0b, 0x07,
          0x02, 0x9b, 0xfc, 0xdb, 0x2d, 0xce, 0x28, 0xd9, 0x59, 0xf2, 0x81, 0x5b, 0x16, 0xf8, 0x17, 0x98]"
    by (simp add: e decoded_def plain_text_externals_def)
  finally show ?thesis .
qed

section \<open>Claim C8: format detection\<close>

lemma literal_prefixes:
  "lit ''kpub'' \<noteq> lit ''xpub''" "lit ''kpub'' \<noteq> lit ''tpub''" "lit ''xpub'' \<noteq> lit ''tpub''"
  by (simp_all add: lit_def)

lemma startsWith_literal:
  "startsWith s (lit ''kpub'') \<longleftrightarrow> take 4 s = lit ''kpub''"
  "startsWith s (lit ''xpub'') \<longleftrightarrow> take 4 s = lit ''xpub''"
  "startsWith s (lit ''tpub'') \<longleftrightarrow> take 4 s = lit ''tpub''"
proof -
  have "length (lit ''kpub'') = 4" "length (lit ''xpub'') = 4" "length (lit ''tpub'') = 4"
    by (simp_all add: lit_def)
  then show "startsWith s (lit ''kpub'') \<longleftrightarrow> take 4 s = lit ''kpub''"
    "startsWith s (lit ''xpub'') \<longleftrightarrow> take 4 s = lit ''xpub''"
    "startsWith s (lit ''tpub'') \<longleftrightarrow> take 4 s = lit ''tpub''"
    unfolding startsWith_def by (simp_all only:)
qed

text \<open>
  C8, as the code has it. detectKPUBFormat looks at the first four code units only. It
  returns 'kaspium' for every string that starts with "kpub", 'standard' for every string
  that starts with "xpub" and 'testnet' for every string that starts with "tpub"; it
  fails with the unsupported-format error for every other string, the empty one
  included, and with the separate must-be-a-string error for every value that is not a
  string.
\<close>

theorem detectKPUBFormat_cases:
  "(startsWith s (lit ''kpub'') \<longrightarrow> detectKPUBFormat (JString s) = Inr (lit ''kaspium''))
   \<and> (startsWith s (lit ''xpub'') \<longrightarrow> detectKPUBFormat (JString s) = Inr (lit ''standard''))
   \<and> (startsWith s (lit ''tpub'') \<longrightarrow> detectKPUBFormat (JString s) = Inr (lit ''testnet''))
   \<and> (\<not> startsWith s (lit ''kpub'') \<and> \<not> startsWith s (lit ''xpub'') \<and> \<not> startsWith s (lit ''tpub'')
        \<longrightarrow> detectKPUBFormat (JString s) = Inl UnsupportedFormat)
   \<and> detectKPUBFormat (JString []) = Inl UnsupportedFormat
   \<and> (take 4 s = take 4 s' \<longrightarrow> detectKPUBFormat (JString s) = detectKPUBFormat (JString s'))
   \<and> ((\<forall>t. v \<noteq> JString t) \<longrightarrow> detectKPUBFormat v = Inl MustBeString)"
proof -
  have k: "startsWith s (lit ''kpub'') \<longrightarrow> detectKPUBFormat (JString s) = Inr (lit ''kaspium'')"
    by (simp add: detectKPUBFormat_def)
  have x: "startsWith s (lit ''xpub'') \<longrightarrow> detectKPUBFormat (JString s) = Inr (lit ''standard'')"
    using literal_prefixes(1) by (auto simp: detectKPUBFormat_def startsWith_literal)
  have t: "startsWith s (lit ''tpub'') \<longrightarrow> detectKPUBFormat (JString s) = Inr (lit ''testnet'')"
    using literal_prefixes(2,3) by (auto simp: detectKPUBFormat_def startsWith_literal)
  have u: "\<not> startsWith s (lit ''kpub'') \<and> \<not> startsWith s (lit ''xpub'') \<and> \<not> startsWith s (lit ''tpub'')
        \<longrightarrow> detectKPUBFormat (JString s) = Inl UnsupportedFormat"
    by (simp add: detectKPUBFormat_def)
  have e: "detectKPUBFormat (JString []) = Inl UnsupportedFormat"
    by (simp add: detectKPUBFormat_def startsWith_def lit_def)
  have b: "take 4 s = take 4 s' \<longrightarrow> detectKPUBFormat (JString s) = detectKPUBFormat (JString s')"
    by (simp add: detectKPUBFormat_def startsWith_literal)
  have n: "(\<forall>t. v \<noteq> JString t) \<longrightarrow> detectKPUBFormat v = Inl MustBeString"
    by (cases v) (simp_all add: detectKPUBFormat_def)
  from k x t u e b n show ?thesis by blast
qed

theorem detectKPUBFormat_cases_witness:
  "detectKPUBFormat (JString (lit ''kpub2HhT43'')) = Inr (lit ''kaspium'')
   \<and> detectKPUBFormat (JString (lit ''xpub661My'')) = Inr (lit ''standard'')
   \<and> detectKPUBFormat (JString (lit ''tpubD6Nz'')) = Inr (lit ''testnet'')
   \<and> detectKPUBFormat (JString (lit ''zpub6rFR'')) = Inl UnsupportedFormat
   \<and> detectKPUBFormat JNull = Inl MustBeString"
proof -
  have 1: "startsWith (lit ''kpub2HhT43'') (lit ''kpub'')" by (simp add: startsWith_def lit_def)
  have 2: "startsWith (lit ''xpub661My'') (lit ''xpub'')" by (simp add: startsWith_def lit_def)
  have 3: "startsWith (lit ''tpubD6Nz'') (lit ''tpub'')" by (simp add: startsWith_def lit_def)
  have 4: "\<not> startsWith (lit ''zpub6rFR'') (lit ''kpub'') \<and> \<not> startsWith (lit ''zpub6rFR'') (lit ''xpub'')
           \<and> \<not> startsWith (lit ''zpub6rFR'') (lit ''tpub'')"
    by (simp add: startsWith_def lit_def)
  have 5: "\<forall>t. JNull \<noteq> JString t" by simp
  note c = detectKPUBFormat_cases
  have a: "detectKPUBFormat (JString (lit ''kpub2HhT43'')) = Inr (lit ''kaspium'')"
    by (rule mp [OF c [THEN conjunct1] 1])
  have b: "detectKPUBFormat (JString (lit ''xpub661My'')) = Inr (lit ''standard'')"
    by (rule mp [OF c [THEN conjunct2, THEN conjunct1] 2])
  have d: "detectKPUBFormat (JString (lit ''tpubD6Nz'')) = Inr (lit ''testnet'')"
    by (rule mp [OF c [THEN conjunct2, THEN conjunct2, THEN conjunct1] 3])
  have e: "detectKPUBFormat (JString (lit ''zpub6rFR'')) = Inl UnsupportedFormat"
    by (rule mp [OF c [THEN conjunct2, THEN conjunct2, THEN conjunct2, THEN conjunct1] 4])
  have f: "detectKPUBFormat JNull = Inl MustBeString"
    by (rule mp [OF c [THEN conjunct2, THEN conjunct2, THEN conjunct2, THEN conjunct2,
          THEN conjunct2, THEN conjunct2] 5])
  from a b d e f show ?thesis by (intro conjI)
qed

text \<open>
  C8 as stated fails on a value that is not a string: the error raised for the number 0
  is the must-be-a-string error, not the unsupported-format error.
\<close>

theorem detectKPUBFormat_number_counterexample:
  "detectKPUBFormat (JNumber 0) = Inl MustBeString
   \<and> detectKPUBFormat (JNumber 0) \<noteq> Inl UnsupportedFormat"
  by (simp add: detectKPUBFormat_def)

end
